theory Spec2Isabelle
  imports Main "HOL-Library.Word" "HOL-Library.Sublist"
begin

section \<open>Strings\<close>

text \<open>
  The strings of the MediaInfo parser, of the language table and of the names in a torrent
  are lists of code units below 256 (Basic Latin and Latin-1), the type \<open>string\<close>.  On
  this alphabet \<open>toLowerCase\<close> maps code unit to code unit.  These modules compare and
  search lower-cased strings and carry no position from a lower-cased copy to the string
  itself.  The BBCode extractor does, and its text is a list of 16-bit code units, with the
  lower-casing of U+0130 to two code units (section \<open>Text as UTF-16 code units\<close>, where
  \<open>toLowerCase\<close> is shown to be the restriction of that lower-casing to this alphabet).
\<close>

definition lower_char :: "char \<Rightarrow> char" where
  "lower_char c =
     (let n = (of_char c :: nat)
      in if (65 \<le> n \<and> n \<le> 90) \<or> (192 \<le> n \<and> n \<le> 222 \<and> n \<noteq> 215)
         then char_of (n + 32) else c)"

definition toLowerCase :: "string \<Rightarrow> string" where
  "toLowerCase s = map lower_char s"

text \<open>
  White space as \<open>trim\<close> and the regular expression class \<open>\s\<close> know it: tab, line feed,
  vertical tab, form feed, carriage return, space, no-break space.
\<close>

definition whitespace :: "char list" where
  "whitespace = [CHR 0x09, CHR 0x0A, CHR 0x0B, CHR 0x0C, CHR 0x0D, CHR 0x20, CHR 0xA0]"

definition is_space :: "char \<Rightarrow> bool" where
  "is_space c = (c \<in> set whitespace)"

definition trim :: "string \<Rightarrow> string" where
  "trim s = rev (dropWhile is_space (rev (dropWhile is_space s)))"

text \<open>
  \<open>index_of pat s\<close> is the first index at which \<open>pat\<close> occurs in \<open>s\<close>; \<open>indexOf s pat pos\<close>
  is \<open>s.indexOf(pat, pos)\<close>, with \<open>None\<close> for \<open>-1\<close>; \<open>str_includes s pat\<close> is \<open>s.includes(pat)\<close>.
\<close>

fun index_of :: "'a list \<Rightarrow> 'a list \<Rightarrow> nat option" where
  "index_of pat [] = (if pat = [] then Some 0 else None)"
| "index_of pat (c # cs) =
     (if prefix pat (c # cs) then Some 0 else map_option Suc (index_of pat cs))"

definition indexOf :: "'a list \<Rightarrow> 'a list \<Rightarrow> nat \<Rightarrow> nat option" where
  "indexOf s pat pos =
     (let p = min pos (length s) in map_option (\<lambda>k. p + k) (index_of pat (drop p s)))"

definition str_includes :: "string \<Rightarrow> string \<Rightarrow> bool" where
  "str_includes s pat = (index_of pat s \<noteq> None)"

text \<open>\<open>s.substring(a, b)\<close>: the arguments are swapped when \<open>a > b\<close>.\<close>

definition substring :: "'a list \<Rightarrow> nat \<Rightarrow> nat \<Rightarrow> 'a list" where
  "substring s a b = take (max a b - min a b) (drop (min a b) s)"

text \<open>\<open>Array.prototype.join\<close>, and \<open>s.split(c)\<close> for a separator of one code unit.\<close>

fun join :: "string \<Rightarrow> string list \<Rightarrow> string" where
  "join sep [] = []"
| "join sep [x] = x"
| "join sep (x # y # ys) = x @ sep @ join sep (y # ys)"

fun split_on :: "char \<Rightarrow> string \<Rightarrow> string list" where
  "split_on sep [] = [[]]"
| "split_on sep (c # cs) =
     (if c = sep then [] # split_on sep cs
      else (case split_on sep cs of [] \<Rightarrow> [[c]] | p # ps \<Rightarrow> (c # p) # ps))"

text \<open>What the language itself raises in the code modelled here.\<close>

datatype js_error = TypeError

lemma lower_char_Char [simp, code]:
  "lower_char (Char b0 b1 b2 b3 b4 b5 b6 b7) =
     (if b6 \<and> \<not> b5 \<and>
         (if b7 then \<not> (b0 \<and> b1 \<and> b2 \<and> b3 \<and> b4) \<and> \<not> (b0 \<and> b1 \<and> b2 \<and> \<not> b3 \<and> b4)
          else (b0 \<or> b1 \<or> b2 \<or> b3 \<or> b4) \<and> \<not> (b4 \<and> b3 \<and> (b2 \<or> (b1 \<and> b0))))
      then Char b0 b1 b2 b3 b4 True b6 b7
      else Char b0 b1 b2 b3 b4 b5 b6 b7)"
  by (cases b0; cases b1; cases b2; cases b3; cases b4; cases b5; cases b6; cases b7)
     (simp_all add: lower_char_def char_of_eq_iff take_bit_eq_mod)

lemma length_toLowerCase [simp]: "length (toLowerCase s) = length s"
  by (simp add: toLowerCase_def)

lemma toLowerCase_append [simp]: "toLowerCase (a @ b) = toLowerCase a @ toLowerCase b"
  by (simp add: toLowerCase_def)

lemma drop_toLowerCase: "drop k (toLowerCase s) = toLowerCase (drop k s)"
  by (simp add: toLowerCase_def drop_map)

lemma index_of_le: "index_of pat s = Some k \<Longrightarrow> k + length pat \<le> length s"
proof (induction s arbitrary: k)
  case Nil
  then show ?case by (auto split: if_splits)
next
  case (Cons c cs)
  show ?case
  proof (cases "prefix pat (c # cs)")
    case True
    with Cons.prems show ?thesis by (auto dest: prefix_length_le)
  next
    case False
    with Cons.prems obtain j where "index_of pat cs = Some j" "k = Suc j" by auto
    with Cons.IH show ?thesis by auto
  qed
qed

lemma indexOf_bounds:
  assumes "indexOf s pat pos = Some k" and "pos \<le> length s"
  shows "pos \<le> k \<and> k + length pat \<le> length s"
proof -
  from assms obtain j where j: "index_of pat (drop pos s) = Some j" "k = pos + j"
    by (auto simp: indexOf_def Let_def min_def split: if_splits)
  from index_of_le[OF j(1)] assms(2) j(2) show ?thesis by auto
qed

lemma indexOf_ge:
  "Some k = indexOf (toLowerCase r) pat pos \<Longrightarrow> pos < length r \<Longrightarrow> pos \<le> k"
  using indexOf_bounds [of "toLowerCase r" pat pos k] by simp

lemma indexOf_None:
  "p \<le> length s \<Longrightarrow> indexOf s pat p = None \<longleftrightarrow> index_of pat (drop p s) = None"
  by (simp add: indexOf_def Let_def min_def)

lemma indexOf_here:
  "p < length s \<Longrightarrow> prefix pat (drop p s) \<Longrightarrow> indexOf s pat p = Some p"
  by (cases "drop p s") (auto simp: indexOf_def Let_def min_def)

lemma indexOf_skip:
  assumes "p < length s" and "\<not> prefix pat (drop p s)"
  shows "indexOf s pat p = indexOf s pat (Suc p)"
proof -
  from assms(1) have d: "drop p s = s ! p # drop (Suc p) s" by (simp add: Cons_nth_drop_Suc)
  from assms(2) d have "index_of pat (drop p s) = map_option Suc (index_of pat (drop (Suc p) s))"
    by simp
  with assms(1) show ?thesis
    by (cases "index_of pat (drop (Suc p) s)") (simp_all add: indexOf_def Let_def min_def)
qed

lemma index_of_prefix: "index_of pat s = Some 0 \<Longrightarrow> prefix pat s"
  by (cases s) (auto split: if_splits)

lemma indexOf_here_iff:
  assumes "p < length s" and "indexOf s pat p = Some p"
  shows "prefix pat (drop p s)"
proof -
  from assms have "index_of pat (drop p s) = Some 0"
    by (auto simp: indexOf_def Let_def min_def)
  then show ?thesis by (rule index_of_prefix)
qed

lemma index_of_drop_None: "index_of pat s = None \<Longrightarrow> index_of pat (drop k s) = None"
proof (induction s arbitrary: k)
  case Nil
  then show ?case by simp
next
  case (Cons c cs)
  then show ?case by (cases k) (auto split: if_splits)
qed

lemma drop_append_le: "n \<le> length a \<Longrightarrow> drop n (a @ b) = drop n a @ b"
  by simp

text \<open>
  A pattern that holds the element \<open>b\<close> at its head only cannot begin in one piece of text
  and end in the next, when the next piece begins with \<open>b\<close>.
\<close>

lemma prefix_append_bracket:
  assumes "\<not> prefix pat a" and "a \<noteq> []" and "b \<notin> set (tl pat)"
    and "x = [] \<or> hd x = b"
  shows "\<not> prefix pat (a @ x)"
proof
  assume "prefix pat (a @ x)"
  with assms(1) obtain us where us: "pat = a @ us" "prefix us x"
    by (auto simp: prefix_append)
  from us(1) assms(1) have ne: "us \<noteq> []" by auto
  with us(2) have "x \<noteq> []" by auto
  with assms(4) us(2) ne have "hd us = b" by (cases us; cases x) auto
  with ne have "b \<in> set us" by (cases us) auto
  moreover from us(1) assms(2) have "set us \<subseteq> set (tl pat)" by (cases a) auto
  ultimately show False using assms(3) by auto
qed

section \<open>Torrent decoder (scripts/lib/torrent.ts)\<close>

text \<open>
  \<open>bencode.decode\<close> returns a JavaScript value, and \<open>parseTorrent\<close> casts it to the
  interface \<open>BencodedTorrent\<close> without a check, so the decoded value is modelled as the
  value it is: \<open>null\<close> (for an empty file), a number for a bencoded integer, a byte array
  for a bencoded string, an array for a list, and for a dictionary an object with its own
  properties and, when the dictionary has the key \<open>__proto__\<close>, the value installed as its
  prototype.  \<open>Str\<close> is a string, which the interface allows for names, and \<open>Undefined\<close>
  is what a read of an absent property gives.  A number that holds a bencoded integer is an
  \<open>int\<close> (exact below \<open>2^53\<close>).  The own properties of an object are an association list,
  read with \<open>map_of\<close>.  Decoded text (names, path components) is a \<open>string\<close>, as in the
  other modules; \<open>parseTorrent\<close> joins it and does not look into it.
\<close>

datatype jsvalue =
    Undefined
  | Null
  | Num int
  | Str string
  | Bytes "8 word list"
  | Arr "jsvalue list"
  | Obj "(string \<times> jsvalue) list" "jsvalue option"

record TorrentFile =
  tf_path :: string
  tf_size :: jsvalue

record TorrentEntry =
  te_name :: string
  te_files :: "TorrentFile list"

text \<open>
  What ends a call without a result: the file cannot be read, the bytes are not bencode,
  or the language raises.  \<open>Unmodelled\<close> is not an error: it marks a call that reaches a
  conversion of the language that is not modelled here (\<open>Buffer.from\<close> of an array or an
  object, the iteration or the \<open>map\<close> of an object with an installed prototype), and about
  which nothing is stated.
\<close>

datatype torrent_error = ReadError | DecodeError | Thrown js_error | Unmodelled

text \<open>
  \<open>get v k\<close> is the read \<open>v.k\<close>, for the names that \<open>parseTorrent\<close> reads: \<open>info\<close>, \<open>name\<close>,
  \<open>files\<close>, \<open>length\<close> and \<open>path\<close>.  A read on \<open>undefined\<close> or \<open>null\<close> raises a \<open>TypeError\<close>.
  Of these names the built-in prototypes know \<open>length\<close> only, on a string, a byte array
  and an array.  An object gives its own property, or else what its installed prototype
  gives.  \<open>truthy_value\<close> is the truth test of \<open>if\<close>.
\<close>

fun get :: "jsvalue \<Rightarrow> string \<Rightarrow> torrent_error + jsvalue" where
  "get Undefined k = Inl (Thrown TypeError)"
| "get Null k = Inl (Thrown TypeError)"
| "get (Num n) k = Inr Undefined"
| "get (Str s) k = Inr (if k = ''length'' then Num (int (length s)) else Undefined)"
| "get (Bytes b) k = Inr (if k = ''length'' then Num (int (length b)) else Undefined)"
| "get (Arr a) k = Inr (if k = ''length'' then Num (int (length a)) else Undefined)"
| "get (Obj props proto) k =
     (case map_of props k of
        Some v \<Rightarrow> Inr v
      | None \<Rightarrow>
          (case proto of
             Some (Obj props' proto') \<Rightarrow> get (Obj props' proto') k
           | Some (Arr a) \<Rightarrow> get (Arr a) k
           | Some (Bytes b) \<Rightarrow> get (Bytes b) k
           | _ \<Rightarrow> Inr Undefined))"

fun truthy_value :: "jsvalue \<Rightarrow> bool" where
  "truthy_value Undefined = False"
| "truthy_value Null = False"
| "truthy_value (Num n) = (n \<noteq> 0)"
| "truthy_value (Str s) = (s \<noteq> [])"
| "truthy_value (Bytes b) = True"
| "truthy_value (Arr a) = True"
| "truthy_value (Obj props proto) = True"

text \<open>
  \<open>toStr\<close>: a string is returned as it is, a byte array goes through the platform's
  UTF-8 decoder, which is a parameter here, and anything else goes to \<open>Buffer.from\<close>, which
  raises a \<open>TypeError\<close> for \<open>undefined\<close>, \<open>null\<close> and a number.
\<close>

fun toStr :: "(8 word list \<Rightarrow> string) \<Rightarrow> jsvalue \<Rightarrow> torrent_error + string" where
  "toStr utf8 (Str s) = Inr s"
| "toStr utf8 (Bytes b) = Inr (utf8 b)"
| "toStr utf8 Undefined = Inl (Thrown TypeError)"
| "toStr utf8 Null = Inl (Thrown TypeError)"
| "toStr utf8 (Num n) = Inl (Thrown TypeError)"
| "toStr utf8 (Arr a) = Inl Unmodelled"
| "toStr utf8 (Obj props proto) = Inl Unmodelled"

text \<open>
  \<open>each f xs\<close> runs \<open>f\<close> on the elements of \<open>xs\<close> in order and stops at the first that does
  not return.
\<close>

fun each :: "('a \<Rightarrow> torrent_error + 'b) \<Rightarrow> 'a list \<Rightarrow> torrent_error + 'b list" where
  "each f [] = Inr []"
| "each f (x # xs) =
     (case f x of
        Inl e \<Rightarrow> Inl e
      | Inr y \<Rightarrow> (case each f xs of Inl e \<Rightarrow> Inl e | Inr ys \<Rightarrow> Inr (y # ys)))"

text \<open>
  \<open>path_parts\<close> is \<open>file.path.map(p => toStr(p))\<close>.  An array maps its elements.  A byte
  array has a \<open>map\<close> of its own, which hands its numbers to \<open>toStr\<close>.  \<open>undefined\<close>, \<open>null\<close>,
  a number, a string and an object without an installed prototype have no function \<open>map\<close>.
\<close>

fun path_parts :: "(8 word list \<Rightarrow> string) \<Rightarrow> jsvalue \<Rightarrow> torrent_error + string list" where
  "path_parts utf8 (Arr a) = each (toStr utf8) a"
| "path_parts utf8 (Bytes b) = each (toStr utf8) (map (\<lambda>w. Num (uint w)) b)"
| "path_parts utf8 (Obj props (Some p)) = Inl Unmodelled"
| "path_parts utf8 v = Inl (Thrown TypeError)"

text \<open>
  \<open>elements_of v\<close> is what \<open>for (const file of v)\<close> runs through: the elements of an array, the
  numbers of a byte array, the characters of a string.  A number and an object without an
  installed prototype are not iterable.
\<close>

fun elements_of :: "jsvalue \<Rightarrow> torrent_error + jsvalue list" where
  "elements_of (Arr a) = Inr a"
| "elements_of (Bytes b) = Inr (map (\<lambda>w. Num (uint w)) b)"
| "elements_of (Str s) = Inr (map (\<lambda>c. Str [c]) s)"
| "elements_of (Obj props (Some p)) = Inl Unmodelled"
| "elements_of v = Inl (Thrown TypeError)"

text \<open>The body of the loop over \<open>decoded.info.files\<close>, lines 38 to 43.\<close>

definition file_entry :: "(8 word list \<Rightarrow> string) \<Rightarrow> jsvalue \<Rightarrow> torrent_error + TorrentFile" where
  "file_entry utf8 file =
     (case get file ''path'' of
        Inl e \<Rightarrow> Inl e
      | Inr path \<Rightarrow>
          (case path_parts utf8 path of
             Inl e \<Rightarrow> Inl e
           | Inr pathParts \<Rightarrow>
               (case get file ''length'' of
                  Inl e \<Rightarrow> Inl e
                | Inr len \<Rightarrow> Inr \<lparr>tf_path = join ''/'' pathParts, tf_size = len\<rparr>)))"

text \<open>
  Lines 36 to 51 of \<open>parseTorrent\<close>, for an \<open>info\<close> that is neither \<open>undefined\<close> nor \<open>null\<close>.
  Both tests are truth tests: an array is always true, a number is true when it is not zero.
\<close>

definition torrent_files :: "(8 word list \<Rightarrow> string) \<Rightarrow> string \<Rightarrow> jsvalue \<Rightarrow> torrent_error + TorrentFile list" where
  "torrent_files utf8 name i =
     (case get i ''files'' of
        Inl e \<Rightarrow> Inl e
      | Inr fs \<Rightarrow>
          if truthy_value fs
          then (case elements_of fs of Inl e \<Rightarrow> Inl e | Inr items \<Rightarrow> each (file_entry utf8) items)
          else (case get i ''length'' of
                  Inl e \<Rightarrow> Inl e
                | Inr n \<Rightarrow> if truthy_value n then Inr [\<lparr>tf_path = name, tf_size = n\<rparr>] else Inr []))"

text \<open>
  \<open>parseTorrent\<close>.  Reading the file and decoding the bytes are library calls, passed as
  parameters; either may raise, and then the call raises.  The name is converted before
  the file list is built.
\<close>

definition parseTorrent ::
  "(string \<Rightarrow> torrent_error + 8 word list) \<Rightarrow> (8 word list \<Rightarrow> torrent_error + jsvalue) \<Rightarrow>
   (8 word list \<Rightarrow> string) \<Rightarrow> string \<Rightarrow> torrent_error + TorrentEntry" where
  "parseTorrent readFile decode utf8 torrentPath =
     (case readFile torrentPath of
        Inl e \<Rightarrow> Inl e
      | Inr buffer \<Rightarrow>
          (case decode buffer of
             Inl e \<Rightarrow> Inl e
           | Inr decoded \<Rightarrow>
               (case get decoded ''info'' of
                  Inl e \<Rightarrow> Inl e
                | Inr i \<Rightarrow>
                    (case get i ''name'' of
                       Inl e \<Rightarrow> Inl e
                     | Inr n \<Rightarrow>
                         (case toStr utf8 n of
                            Inl e \<Rightarrow> Inl e
                          | Inr name \<Rightarrow>
                              (case torrent_files utf8 name i of
                                 Inl e \<Rightarrow> Inl e
                               | Inr files \<Rightarrow> Inr \<lparr>te_name = name, te_files = files\<rparr>))))))"

text \<open>
  Sample collaborators for concrete runs: a file that reads, bytes that decode, and the
  decoder of text that takes each byte for the code unit of its value.
\<close>

definition reads_as :: "8 word list \<Rightarrow> string \<Rightarrow> torrent_error + 8 word list" where
  "reads_as b p = Inr b"

definition decodes_as :: "jsvalue \<Rightarrow> 8 word list \<Rightarrow> torrent_error + jsvalue" where
  "decodes_as d b = Inr d"

definition latin1 :: "8 word list \<Rightarrow> string" where
  "latin1 b = map (\<lambda>w. char_of (unat w)) b"

definition bytes_of :: "string \<Rightarrow> 8 word list" where
  "bytes_of s = map of_char s"

definition bare_info :: jsvalue where
  "bare_info = Obj [(''name'', Bytes (bytes_of ''Show''))] None"

definition bare_torrent :: jsvalue where
  "bare_torrent = Obj [(''info'', bare_info)] None"

definition nameless_torrent :: jsvalue where
  "nameless_torrent = Obj [(''info'', Obj [] None)] None"

definition empty_file_info :: jsvalue where
  "empty_file_info = Obj [(''length'', Num 0), (''name'', Bytes (bytes_of ''empty.bin''))] None"

definition empty_file_torrent :: jsvalue where
  "empty_file_torrent = Obj [(''info'', empty_file_info)] None"

definition show_torrent :: jsvalue where
  "show_torrent =
     Obj [(''info'',
           Obj [(''files'',
                 Arr [Obj [(''length'', Num 100),
                           (''path'', Arr [Bytes (bytes_of ''S01''), Bytes (bytes_of ''e1.mkv'')])] None,
                      Obj [(''length'', Num 200),
                           (''path'', Arr [Bytes (bytes_of ''S01''), Bytes (bytes_of ''e2.mkv'')])] None]),
                (''name'', Bytes (bytes_of ''Show''))] None)] None"

text \<open>
  A list of files as the format has it: each file is a dictionary whose \<open>path\<close> is a list of
  byte strings.
\<close>

fun bytes_in :: "jsvalue \<Rightarrow> 8 word list option" where
  "bytes_in (Bytes b) = Some b"
| "bytes_in v = None"

definition path_of :: "jsvalue \<Rightarrow> 8 word list list option" where
  "path_of file =
     (case file of
        Obj props None \<Rightarrow>
          (case map_of props ''path'' of
             Some (Arr a) \<Rightarrow>
               if list_all (\<lambda>p. bytes_in p \<noteq> None) a then Some (map (\<lambda>p. the (bytes_in p)) a) else None
           | _ \<Rightarrow> None)
      | _ \<Rightarrow> None)"

definition length_of :: "jsvalue \<Rightarrow> jsvalue" where
  "length_of file = (case get file ''length'' of Inr v \<Rightarrow> v | Inl e \<Rightarrow> Undefined)"

section \<open>Properties of the torrent decoder\<close>

lemma char_of_byte: "char_of (unat (of_char c :: 8 word)) = c"
proof -
  have "(of_char c :: 8 word) = of_nat (of_char c)" by (simp only: of_nat_of_char)
  then have "unat (of_char c :: 8 word) = of_char c mod 256"
    by (simp only: unat_of_nat) simp
  then show ?thesis by simp
qed

lemma latin1_bytes_of [simp]: "latin1 (bytes_of s) = s"
  by (induction s) (simp_all add: latin1_def bytes_of_def char_of_byte)

lemma each_map:
  assumes "\<And>x. x \<in> set xs \<Longrightarrow> f x = Inr (g x)"
  shows "each f xs = Inr (map g xs)"
  using assms by (induction xs) simp_all

lemma file_entry_of_path:
  assumes "path_of file = Some ps"
  shows "file_entry utf8 file = Inr \<lparr>tf_path = join ''/'' (map utf8 ps), tf_size = length_of file\<rparr>"
proof -
  from assms obtain props a where obj: "file = Obj props None"
    and path: "map_of props ''path'' = Some (Arr a)"
    and bytes: "list_all (\<lambda>p. bytes_in p \<noteq> None) a"
    and ps: "ps = map (\<lambda>p. the (bytes_in p)) a"
    by (auto simp: path_of_def split: jsvalue.splits option.splits if_splits)
  have "each (toStr utf8) a = Inr (map (\<lambda>p. utf8 (the (bytes_in p))) a)"
  proof (rule each_map)
    fix x assume "x \<in> set a"
    with bytes show "toStr utf8 x = Inr (utf8 (the (bytes_in x)))"
      by (cases x) (auto simp: list_all_iff)
  qed
  with obj path ps show ?thesis
    by (cases "map_of props ''length''") (simp_all add: file_entry_def length_of_def comp_def)
qed

text \<open>
  The multi-file branch, on a list of files as the format has it: the files of the result
  are, in order, the path components joined by a slash and the declared length.
\<close>

lemma parseTorrent_multi_file:
  assumes "readFile p = Inr buf" and "decode buf = Inr d" and "get d ''info'' = Inr i"
    and "get i ''name'' = Inr n" and "toStr utf8 n = Inr name"
    and "get i ''files'' = Inr (Arr fs)" and "\<And>f. f \<in> set fs \<Longrightarrow> path_of f \<noteq> None"
  shows "parseTorrent readFile decode utf8 p =
           Inr \<lparr>te_name = name,
                te_files = map (\<lambda>f. \<lparr>tf_path = join ''/'' (map utf8 (the (path_of f))),
                                      tf_size = length_of f\<rparr>) fs\<rparr>"
proof -
  have "each (file_entry utf8) fs =
          Inr (map (\<lambda>f. \<lparr>tf_path = join ''/'' (map utf8 (the (path_of f))), tf_size = length_of f\<rparr>) fs)"
  proof (rule each_map)
    fix f assume "f \<in> set fs"
    with assms(7) obtain ps where "path_of f = Some ps" by fastforce
    then show "file_entry utf8 f =
                 Inr \<lparr>tf_path = join ''/'' (map utf8 (the (path_of f))), tf_size = length_of f\<rparr>"
      using file_entry_of_path[of f ps utf8] by simp
  qed
  with assms(1-6) show ?thesis by (simp add: parseTorrent_def torrent_files_def)
qed

text \<open>The single-file branch, for a length other than zero.\<close>

lemma parseTorrent_single_file:
  assumes "readFile p = Inr buf" and "decode buf = Inr d" and "get d ''info'' = Inr i"
    and "get i ''name'' = Inr n" and "toStr utf8 n = Inr name"
    and "get i ''files'' = Inr Undefined" and "get i ''length'' = Inr (Num k)" and "k \<noteq> 0"
  shows "parseTorrent readFile decode utf8 p =
           Inr \<lparr>te_name = name, te_files = [\<lparr>tf_path = name, tf_size = Num k\<rparr>]\<rparr>"
  using assms by (simp add: parseTorrent_def torrent_files_def)

lemma parseTorrent_show:
  "parseTorrent (reads_as []) (decodes_as show_torrent) latin1 ''show.torrent'' =
     Inr \<lparr>te_name = ''Show'',
          te_files = [\<lparr>tf_path = ''S01/e1.mkv'', tf_size = Num 100\<rparr>,
                      \<lparr>tf_path = ''S01/e2.mkv'', tf_size = Num 200\<rparr>]\<rparr>"
  by (simp add: parseTorrent_def torrent_files_def file_entry_def reads_as_def decodes_as_def show_torrent_def)

text \<open>
  The dictionary \<open>{info: {}}\<close> (the bytes \<open>d4:infodee\<close>) has no name: \<open>toStr(undefined)\<close>
  raises a \<open>TypeError\<close>.  So does a file that decodes to \<open>null\<close>, at the read of \<open>info\<close>.
\<close>

lemma parseTorrent_nameless:
  "parseTorrent (reads_as []) (decodes_as nameless_torrent) latin1 ''nameless.torrent'' = Inl (Thrown TypeError)"
  by (simp add: parseTorrent_def reads_as_def decodes_as_def nameless_torrent_def)

lemma parseTorrent_null:
  "parseTorrent (reads_as []) (decodes_as Null) latin1 ''empty'' = Inl (Thrown TypeError)"
  by (simp add: parseTorrent_def reads_as_def decodes_as_def)

text \<open>
  C1 (as the code has it): when the decoded \<open>info\<close> has a name that \<open>toStr\<close> converts, and
  has neither \<open>files\<close> nor \<open>length\<close>, \<open>parseTorrent\<close> returns the entry with that name and an
  empty file list.
\<close>

theorem parseTorrent_neither_returns_empty:
  assumes "readFile p = Inr buf" and "decode buf = Inr d" and "get d ''info'' = Inr i"
    and "get i ''name'' = Inr n" and "toStr utf8 n = Inr name"
    and "get i ''files'' = Inr Undefined" and "get i ''length'' = Inr Undefined"
  shows "parseTorrent readFile decode utf8 p = Inr \<lparr>te_name = name, te_files = []\<rparr>"
  using assms by (simp add: parseTorrent_def torrent_files_def)

theorem parseTorrent_neither_returns_empty_witness:
  "reads_as [] ''bare.torrent'' = Inr [] \<and> decodes_as bare_torrent [] = Inr bare_torrent \<and>
   get bare_torrent ''info'' = Inr bare_info \<and>
   get bare_info ''name'' = Inr (Bytes (bytes_of ''Show'')) \<and>
   toStr latin1 (Bytes (bytes_of ''Show'')) = Inr ''Show'' \<and>
   get bare_info ''files'' = Inr Undefined \<and> get bare_info ''length'' = Inr Undefined \<and>
   parseTorrent (reads_as []) (decodes_as bare_torrent) latin1 ''bare.torrent'' =
     Inr \<lparr>te_name = ''Show'', te_files = []\<rparr>"
  using parseTorrent_neither_returns_empty
          [of "reads_as []" "''bare.torrent''" "[]" "decodes_as bare_torrent" bare_torrent bare_info
              "Bytes (bytes_of ''Show'')" latin1 "''Show''"]
  by (simp add: reads_as_def decodes_as_def bare_torrent_def bare_info_def)

text \<open>
  C1 (as stated) fails: on the dictionary \<open>{info: {name: "Show"}}\<close>, whose \<open>info\<close> has
  neither \<open>files\<close> nor \<open>length\<close>, the call is a success whose file list is empty, not a
  decode error.
\<close>

theorem parseTorrent_neither_counterexample:
  "get bare_torrent ''info'' = Inr bare_info \<and>
   get bare_info ''files'' = Inr Undefined \<and> get bare_info ''length'' = Inr Undefined \<and>
   parseTorrent (reads_as []) (decodes_as bare_torrent) latin1 ''bare.torrent'' =
     Inr \<lparr>te_name = ''Show'', te_files = []\<rparr>"
  by (simp add: parseTorrent_def torrent_files_def reads_as_def decodes_as_def bare_torrent_def bare_info_def)

text \<open>
  C8 at a single-file torrent of length zero, \<open>{info: {name: "empty.bin", length: 0}}\<close>:
  \<open>length\<close> is present, and the file list is empty, because the test of \<open>length\<close> is a
  truth test and zero is false.  The multi-file branch keeps a file of length zero.
\<close>

theorem parseTorrent_zero_length_dropped:
  "get empty_file_torrent ''info'' = Inr empty_file_info \<and>
   get empty_file_info ''files'' = Inr Undefined \<and> get empty_file_info ''length'' = Inr (Num 0) \<and>
   parseTorrent (reads_as []) (decodes_as empty_file_torrent) latin1 ''empty.torrent'' =
     Inr \<lparr>te_name = ''empty.bin'', te_files = []\<rparr>"
  by (simp add: parseTorrent_def torrent_files_def reads_as_def decodes_as_def empty_file_torrent_def empty_file_info_def)


section \<open>Text as UTF-16 code units\<close>

text \<open>
  The BBCode extractor carries positions from the lower-cased copy of a text to the text
  itself, so its text is modelled as JavaScript has it, a sequence of 16-bit code units.
  \<open>units\<close> writes a literal.  \<open>toLowerCase_utf16\<close> is \<open>String.prototype.toLowerCase\<close>:
  \<open>lower_unit\<close> gives the lower-case form of one code unit, which for U+0130 (capital I
  with dot above) is the two code units U+0069 U+0307, so that the lower-cased copy of a
  text with that letter is longer than the text; no other letter changes the length.  The
  table holds the capital letters of Basic Latin and Latin-1, U+0130, and the four letters
  beyond Latin-1 whose lower-case form lies in that range (U+0178, U+1E9E, the Kelvin sign
  U+212A and the Angstrom sign U+212B).  The other letters that have a lower-case form
  (Greek, Cyrillic and so on) are left as they are: their lower-case form is one code unit
  for one code unit, outside Basic Latin and Latin-1, and the extractor looks in the
  lower-cased copy for tags of Basic Latin only.
\<close>

type_synonym code_unit = "16 word"

type_synonym utf16 = "code_unit list"

definition units :: "string \<Rightarrow> utf16" where
  "units s = map of_char s"

definition lower_unit :: "code_unit \<Rightarrow> utf16" where
  "lower_unit u =
     (if u = 0x130 then [0x69, 0x307]
      else if (0x41 \<le> u \<and> u \<le> 0x5A) \<or> (0xC0 \<le> u \<and> u \<le> 0xDE \<and> u \<noteq> 0xD7) then [u + 0x20]
      else if u = 0x178 then [0xFF]
      else if u = 0x1E9E then [0xDF]
      else if u = 0x212A then [0x6B]
      else if u = 0x212B then [0xE5]
      else [u])"

definition toLowerCase_utf16 :: "utf16 \<Rightarrow> utf16" where
  "toLowerCase_utf16 s = concat (map lower_unit s)"

text \<open>
  The flag \<open>i\<close> of a regular expression compares a code unit with a letter of the pattern
  after canonicalisation, which maps no code unit outside Basic Latin to a letter of Basic
  Latin: a letter of the pattern matches itself in lower and in upper case only.
\<close>

definition fold_case :: "code_unit \<Rightarrow> code_unit" where
  "fold_case u = (if 0x41 \<le> u \<and> u \<le> 0x5A then u + 0x20 else u)"

text \<open>White space as \<open>trim\<close> knows it: the white space and the line terminators of the standard.\<close>

definition whitespace_utf16 :: "code_unit list" where
  "whitespace_utf16 =
     [0x09, 0x0A, 0x0B, 0x0C, 0x0D, 0x20, 0xA0, 0x1680,
      0x2000, 0x2001, 0x2002, 0x2003, 0x2004, 0x2005, 0x2006, 0x2007, 0x2008, 0x2009, 0x200A,
      0x2028, 0x2029, 0x202F, 0x205F, 0x3000, 0xFEFF]"

definition is_space_utf16 :: "code_unit \<Rightarrow> bool" where
  "is_space_utf16 u = (u \<in> set whitespace_utf16)"

definition trim_utf16 :: "utf16 \<Rightarrow> utf16" where
  "trim_utf16 s = rev (dropWhile is_space_utf16 (rev (dropWhile is_space_utf16 s)))"

text \<open>
  A text is \<open>stable\<close> when it has no U+0130: then lower-casing keeps every code unit in its
  place.  \<open>lower1\<close> is the lower-case form of a code unit other than U+0130.
\<close>

definition stable :: "utf16 \<Rightarrow> bool" where
  "stable s = (0x130 \<notin> set s)"

definition lower1 :: "code_unit \<Rightarrow> code_unit" where
  "lower1 u = hd (lower_unit u)"

lemma stable_Nil [simp]: "stable []" by (simp add: stable_def)
lemma stable_Cons [simp]: "stable (u # s) \<longleftrightarrow> u \<noteq> 0x130 \<and> stable s" by (auto simp: stable_def)
lemma stable_append [simp]: "stable (a @ b) \<longleftrightarrow> stable a \<and> stable b" by (auto simp: stable_def)
lemma stable_drop: "stable s \<Longrightarrow> stable (drop n s)" by (auto simp: stable_def dest: in_set_dropD)
lemma stable_take: "stable s \<Longrightarrow> stable (take n s)" by (auto simp: stable_def dest: in_set_takeD)

lemma unat_of_char_unit: "unat (of_char c :: 16 word) = of_char c"
proof -
  have lt: "(of_char c :: nat) < 256"
    by (metis of_char_mod_256 mod_less_divisor zero_less_numeral)
  have "unat (of_char c :: 16 word) = unat (of_nat (of_char c) :: 16 word)"
    by (simp only: of_nat_of_char)
  also have "\<dots> = of_char c mod 65536" by (simp add: unat_of_nat)
  also have "\<dots> = of_char c"
  proof (rule mod_less)
    from lt show "(of_char c :: nat) < 65536" by linarith
  qed
  finally show ?thesis .
qed

lemma of_char_unit_less: "(of_char c :: 16 word) < 0x100"
proof -
  have "(of_char c :: nat) < 256"
    by (metis of_char_mod_256 mod_less_divisor zero_less_numeral)
  then show ?thesis by (simp add: word_less_nat_alt unat_of_char_unit)
qed

lemma stable_units [simp]: "stable (units s)"
proof -
  have "(of_char c :: 16 word) \<noteq> 0x130" for c
    using of_char_unit_less[of c] by auto
  then show ?thesis by (auto simp: stable_def units_def)
qed

lemma units_append [simp]: "units (a @ b) = units a @ units b" by (simp add: units_def)
lemma length_units [simp]: "length (units s) = length s" by (simp add: units_def)

lemma toLowerCase_utf16_Nil [simp]: "toLowerCase_utf16 [] = []" by (simp add: toLowerCase_utf16_def)
lemma toLowerCase_utf16_append [simp]: "toLowerCase_utf16 (a @ b) = toLowerCase_utf16 a @ toLowerCase_utf16 b"
  by (simp add: toLowerCase_utf16_def)

lemma lower_unit_stable: "u \<noteq> 0x130 \<Longrightarrow> lower_unit u = [lower1 u]"
  by (simp add: lower1_def lower_unit_def)

lemma toLowerCase_utf16_stable: "stable s \<Longrightarrow> toLowerCase_utf16 s = map lower1 s"
  by (induction s) (simp_all add: toLowerCase_utf16_def lower_unit_stable)

lemma length_toLowerCase_utf16: "stable s \<Longrightarrow> length (toLowerCase_utf16 s) = length s"
  by (simp add: toLowerCase_utf16_stable)

lemma length_le_toLowerCase_utf16: "length s \<le> length (toLowerCase_utf16 s)"
  by (induction s) (simp_all add: toLowerCase_utf16_def lower_unit_def)

lemma drop_toLowerCase_utf16: "stable s \<Longrightarrow> drop k (toLowerCase_utf16 s) = toLowerCase_utf16 (drop k s)"
  by (simp add: toLowerCase_utf16_stable stable_drop drop_map)

lemma fold_lower_unit:
  assumes "fold_case u = v" and "0x61 \<le> v" and "v \<le> 0x7A"
  shows "lower_unit u = [v]"
  using assms by (auto simp: fold_case_def lower_unit_def word_le_nat_alt word_unat_eq_iff split: if_splits)

lemma lower_bracket: "lower_unit u = [0x5B] \<longleftrightarrow> u = 0x5B"
  by (auto simp: lower_unit_def split: if_splits)


lemma lower_unit_of_char: "lower_unit (of_char c) = [of_char (lower_char c)]"
proof -
  have lt: "(of_char c :: nat) < 256"
    by (metis of_char_mod_256 mod_less_divisor zero_less_numeral)
  have up: "unat (of_char (char_of (of_char c + 32 :: nat)) :: 16 word) = (of_char c + 32) mod 256"
    by (simp add: unat_of_char_unit)
  from lt have ne: "(of_char c :: nat) \<noteq> 8491" "(of_char c :: nat) \<noteq> 8490" "(of_char c :: nat) \<noteq> 304"
    "(of_char c :: nat) \<noteq> 376" "(of_char c :: nat) \<noteq> 7838"
    by linarith+
  show ?thesis
    using ne up
    by (auto simp: lower_unit_def lower_char_def Let_def word_le_nat_alt word_unat_eq_iff
          unat_of_char_unit unat_word_ariths)
qed

text \<open>On Basic Latin and Latin-1 the lower-casing is that of \<open>toLowerCase\<close>.\<close>

lemma toLowerCase_utf16_units: "toLowerCase_utf16 (units s) = units (toLowerCase s)"
  by (induction s) (simp_all add: toLowerCase_utf16_def units_def toLowerCase_def lower_unit_of_char)


section \<open>BBCode extractor (scripts/lib/bbcode.ts, lines 71 to 124)\<close>

record block =
  title :: utf16
  content :: utf16

text \<open>
  The opening tag is found by \<open>remaining.match(/\[(quote|spoiler)=([^\]]+)\]/i)\<close>.
  \<open>match_title\<close> is the part \<open>([^\]]+)\]\<close>: a non-empty run of code units other than the
  closing bracket, followed by one.  \<open>match_open_here\<close> tries the expression at the start of
  its argument and returns the two groups and the length of the match; \<open>match_open\<close>
  returns the leftmost match with its index.
\<close>

definition match_title :: "utf16 \<Rightarrow> utf16 option" where
  "match_title s =
     (let t = takeWhile (\<lambda>u. u \<noteq> 0x5D) s
      in if t \<noteq> [] \<and> length t < length s then Some t else None)"

definition match_open_here :: "utf16 \<Rightarrow> (utf16 \<times> utf16 \<times> nat) option" where
  "match_open_here s =
     (if prefix (units ''[quote='') (map fold_case s)
      then map_option (\<lambda>t. (take 5 (drop 1 s), t, 7 + length t + 1)) (match_title (drop 7 s))
      else if prefix (units ''[spoiler='') (map fold_case s)
      then map_option (\<lambda>t. (take 7 (drop 1 s), t, 9 + length t + 1)) (match_title (drop 9 s))
      else None)"

fun match_open :: "utf16 \<Rightarrow> (nat \<times> utf16 \<times> utf16 \<times> nat) option" where
  "match_open [] = None"
| "match_open (c # cs) =
     (case match_open_here (c # cs) of
        Some (g1, g2, n) \<Rightarrow> Some (0, g1, g2, n)
      | None \<Rightarrow> map_option (\<lambda>(i, g1, g2, n). (Suc i, g1, g2, n)) (match_open cs))"

definition openTagStr :: "utf16 \<Rightarrow> utf16" where
  "openTagStr tagName = units ''['' @ tagName"

definition closeTagStr :: "utf16 \<Rightarrow> utf16" where
  "closeTagStr tagName = units ''[/'' @ tagName @ units '']''"

lemma indexOf_from:
  assumes "Some k = indexOf s pat pos" and "pat \<noteq> []"
  shows "pos \<le> k"
proof (cases "pos \<le> length s")
  case True
  with assms(1) show ?thesis
    by (cases "index_of pat (drop pos s)") (auto simp: indexOf_def Let_def min_def)
next
  case False
  then have "drop (min pos (length s)) s = []" by simp
  with assms show ?thesis by (simp add: indexOf_def Let_def)
qed

text \<open>
  The inner loop, with its three variables \<open>pos\<close>, \<open>depth\<close> and \<open>endIndex\<close> (\<open>None\<close> for
  \<open>-1\<close>); it returns \<open>pos\<close> and \<open>endIndex\<close> as they are when the loop ends.  The tags are
  looked for in \<open>remaining.toLowerCase()\<close>, and \<open>pos\<close> is compared with the length of
  \<open>remaining\<close>.
\<close>

function scan :: "utf16 \<Rightarrow> utf16 \<Rightarrow> nat \<Rightarrow> nat \<Rightarrow> nat option \<Rightarrow> nat \<times> nat option" where
  "scan tagName remaining pos depth endIndex =
     (if pos < length remaining \<and> depth > 0 then
        (let nextOpen = indexOf (toLowerCase_utf16 remaining) (openTagStr tagName) pos;
             nextClose = indexOf (toLowerCase_utf16 remaining) (closeTagStr tagName) pos
         in case nextClose of
              None \<Rightarrow> (pos, endIndex)
            | Some nc \<Rightarrow>
                (case nextOpen of
                   Some no \<Rightarrow>
                     if no < nc
                     then scan tagName remaining (no + length (openTagStr tagName)) (depth + 1) endIndex
                     else scan tagName remaining (nc + length (closeTagStr tagName)) (depth - 1)
                            (if depth - 1 = 0 then Some nc else endIndex)
                 | None \<Rightarrow>
                     scan tagName remaining (nc + length (closeTagStr tagName)) (depth - 1)
                       (if depth - 1 = 0 then Some nc else endIndex)))
      else (pos, endIndex))"
  by pat_completeness auto
termination
  by (relation "measure (\<lambda>(tagName, remaining, pos, depth, endIndex). length remaining - pos)")
     (auto simp: openTagStr_def closeTagStr_def units_def dest!: indexOf_from)

declare scan.simps [simp del]

lemma scan_stop:
  "\<not> (pos < length remaining \<and> depth > 0) \<Longrightarrow> scan tagName remaining pos depth endIndex = (pos, endIndex)"
  by (subst scan.simps) auto

lemma scan_no_close:
  "indexOf (toLowerCase_utf16 remaining) (closeTagStr tagName) pos = None \<Longrightarrow>
   scan tagName remaining pos depth endIndex = (pos, endIndex)"
  by (subst scan.simps) auto

lemma scan_open:
  "pos < length remaining \<Longrightarrow> depth > 0 \<Longrightarrow>
   indexOf (toLowerCase_utf16 remaining) (closeTagStr tagName) pos = Some nc \<Longrightarrow>
   indexOf (toLowerCase_utf16 remaining) (openTagStr tagName) pos = Some no \<Longrightarrow> no < nc \<Longrightarrow>
   scan tagName remaining pos depth endIndex =
     scan tagName remaining (no + length (openTagStr tagName)) (depth + 1) endIndex"
  by (subst scan.simps) auto

lemma scan_close:
  "pos < length remaining \<Longrightarrow> depth > 0 \<Longrightarrow>
   indexOf (toLowerCase_utf16 remaining) (closeTagStr tagName) pos = Some nc \<Longrightarrow>
   (case indexOf (toLowerCase_utf16 remaining) (openTagStr tagName) pos of None \<Rightarrow> True | Some no \<Rightarrow> \<not> no < nc) \<Longrightarrow>
   scan tagName remaining pos depth endIndex =
     scan tagName remaining (nc + length (closeTagStr tagName)) (depth - 1)
       (if depth - 1 = 0 then Some nc else endIndex)"
  by (subst scan.simps) (auto split: option.splits)

lemma closeTagStr_nonempty: "closeTagStr t \<noteq> []"
  by (simp add: closeTagStr_def units_def)

lemma openTagStr_nonempty: "openTagStr t \<noteq> []"
  by (simp add: openTagStr_def units_def)

lemma scan_pos_ge: "pos \<le> fst (scan tagName remaining pos depth endIndex)"
proof (induction tagName remaining pos depth endIndex rule: scan.induct)
  case (1 tagName remaining pos depth endIndex)
  show ?case
  proof (cases "pos < length remaining \<and> depth > 0")
    case False
    then show ?thesis by (simp add: scan_stop)
  next
    case True
    show ?thesis
    proof (cases "indexOf (toLowerCase_utf16 remaining) (closeTagStr tagName) pos")
      case None
      then show ?thesis by (simp add: scan_no_close)
    next
      case (Some nc)
      have nc: "pos \<le> nc" using indexOf_from[OF Some[symmetric] closeTagStr_nonempty] .
      show ?thesis
      proof (cases "indexOf (toLowerCase_utf16 remaining) (openTagStr tagName) pos")
        case None
        from "1.IH" True Some None nc
        show ?thesis by (fastforce simp: scan_close)
      next
        case Some': (Some no)
        have no: "pos \<le> no" using indexOf_from[OF Some'[symmetric] openTagStr_nonempty] .
        show ?thesis
        proof (cases "no < nc")
          case True': True
          from "1.IH" True Some Some' True' no
          show ?thesis by (fastforce simp: scan_open)
        next
          case False
          from "1.IH" True Some Some' False nc
          show ?thesis by (fastforce simp: scan_close)
        qed
      qed
    qed
  qed
qed

lemma match_open_here_len: "match_open_here s = Some (g1, g2, n) \<Longrightarrow> 0 < n"
  by (auto simp: match_open_here_def split: if_splits)

lemma match_open_nonempty: "match_open s = Some (i, g1, g2, n) \<Longrightarrow> 0 < n \<and> s \<noteq> []"
proof (induction s arbitrary: i)
  case Nil
  then show ?case by simp
next
  case (Cons c cs)
  then show ?case
    by (auto split: option.splits dest: match_open_here_len)
qed

lemma match_open_drop_less:
  "match_open r = Some (i, g1, g2, n) \<Longrightarrow> length r - (i + n) < length r"
  by (drule match_open_nonempty) simp

lemma scan_drop_less:
  assumes "match_open r = Some (i, g1, g2, n)" and "(pos, e) = scan tg r (i + n) 1 None"
  shows "length r - pos < length r"
proof -
  from assms(2) have "pos = fst (scan tg r (i + n) 1 None)" by (metis fst_conv)
  with scan_pos_ge[of "i + n" tg r 1 None] have "i + n \<le> pos" by simp
  with match_open_nonempty[OF assms(1)] show ?thesis by simp
qed

text \<open>
  The outer loop: \<open>results\<close> and \<open>remaining\<close> are its variables.  When the inner loop has
  set \<open>endIndex\<close>, a block is pushed and the scan resumes at \<open>pos\<close>; otherwise the opening
  tag is skipped, and the scan resumes after it.
\<close>

function extract_loop :: "block list \<Rightarrow> utf16 \<Rightarrow> block list" where
  "extract_loop results remaining =
     (case match_open remaining of
        None \<Rightarrow> results
      | Some (index, g1, g2, mlen) \<Rightarrow>
          (let tagName = toLowerCase_utf16 g1;
               title = trim_utf16 g2;
               startIndex = index + mlen
           in case scan tagName remaining startIndex 1 None of
                (pos, Some e) \<Rightarrow>
                  extract_loop (results @ [\<lparr>title = title, content = substring remaining startIndex e\<rparr>])
                    (drop pos remaining)
              | (pos, None) \<Rightarrow> extract_loop results (drop startIndex remaining)))"
  by pat_completeness auto
termination
  by (relation "measure (\<lambda>(results, remaining). length remaining)")
     (auto dest: match_open_drop_less scan_drop_less)

declare extract_loop.simps [simp del]

definition extractOutermostQuotes :: "utf16 \<Rightarrow> block list" where
  "extractOutermostQuotes input = extract_loop [] input"

section \<open>The earlier copy of the extractor (scripts/lib/bbcode.ts, lines 207 to 254)\<close>

text \<open>
  The file holds a second copy of the function, for quote blocks only.  It looks for the
  tags \<open>[quote\<close> and \<open>[/quote]\<close> in \<open>remaining\<close> itself, in lower case only, and it stops at
  the first opening tag whose closing tag is not found.
\<close>

definition match_quote_here :: "utf16 \<Rightarrow> (utf16 \<times> nat) option" where
  "match_quote_here s =
     (if prefix (units ''[quote='') (map fold_case s)
      then map_option (\<lambda>t. (t, 7 + length t + 1)) (match_title (drop 7 s))
      else None)"

fun match_quote :: "utf16 \<Rightarrow> (nat \<times> utf16 \<times> nat) option" where
  "match_quote [] = None"
| "match_quote (c # cs) =
     (case match_quote_here (c # cs) of
        Some (g1, n) \<Rightarrow> Some (0, g1, n)
      | None \<Rightarrow> map_option (\<lambda>(i, g1, n). (Suc i, g1, n)) (match_quote cs))"

function scan_earlier :: "utf16 \<Rightarrow> nat \<Rightarrow> nat \<Rightarrow> nat option \<Rightarrow> nat \<times> nat option" where
  "scan_earlier remaining pos depth endIndex =
     (if pos < length remaining \<and> depth > 0 then
        (let nextOpen = indexOf remaining (units ''[quote'') pos;
             nextClose = indexOf remaining (units ''[/quote]'') pos
         in case nextClose of
              None \<Rightarrow> (pos, endIndex)
            | Some nc \<Rightarrow>
                (case nextOpen of
                   Some no \<Rightarrow>
                     if no < nc
                     then scan_earlier remaining (no + 6) (depth + 1) endIndex
                     else scan_earlier remaining (nc + 8) (depth - 1)
                            (if depth - 1 = 0 then Some nc else endIndex)
                 | None \<Rightarrow>
                     scan_earlier remaining (nc + 8) (depth - 1)
                       (if depth - 1 = 0 then Some nc else endIndex)))
      else (pos, endIndex))"
  by pat_completeness auto
termination
  by (relation "measure (\<lambda>(remaining, pos, depth, endIndex). length remaining - pos)")
     (auto simp: units_def dest!: indexOf_from)

declare scan_earlier.simps [simp del]

lemma scan_earlier_pos_ge: "pos \<le> fst (scan_earlier remaining pos depth endIndex)"
proof (induction remaining pos depth endIndex rule: scan_earlier.induct)
  case (1 remaining pos depth endIndex)
  show ?case
  proof (cases "pos < length remaining \<and> depth > 0")
    case False
    then show ?thesis by (subst scan_earlier.simps) auto
  next
    case True
    show ?thesis
    proof (cases "indexOf remaining (units ''[/quote]'') pos")
      case None
      then show ?thesis by (subst scan_earlier.simps) auto
    next
      case (Some nc)
      have nc: "pos \<le> nc" using indexOf_from[OF Some[symmetric]] by (simp add: units_def)
      show ?thesis
      proof (cases "indexOf remaining (units ''[quote'') pos")
        case None
        from "1.IH" True Some None nc
        show ?thesis by (subst scan_earlier.simps) (fastforce simp: Let_def)
      next
        case Some': (Some no)
        have no: "pos \<le> no" using indexOf_from[OF Some'[symmetric]] by (simp add: units_def)
        show ?thesis
        proof (cases "no < nc")
          case True': True
          from "1.IH" True Some Some' True' no
          show ?thesis by (subst scan_earlier.simps) (fastforce simp: Let_def)
        next
          case False
          from "1.IH" True Some Some' False nc
          show ?thesis by (subst scan_earlier.simps) (fastforce simp: Let_def)
        qed
      qed
    qed
  qed
qed

lemma match_quote_nonempty: "match_quote s = Some (i, g1, n) \<Longrightarrow> 0 < n \<and> s \<noteq> []"
proof (induction s arbitrary: i)
  case Nil
  then show ?case by simp
next
  case (Cons c cs)
  then show ?case
    by (auto simp: match_quote_here_def split: option.splits if_splits)
qed

lemma scan_earlier_drop_less:
  assumes "match_quote r = Some (i, g1, n)" and "(pos, e) = scan_earlier r (i + n) 1 None"
  shows "length r - pos < length r"
proof -
  from assms(2) have "pos = fst (scan_earlier r (i + n) 1 None)" by (metis fst_conv)
  with scan_earlier_pos_ge[of "i + n" r 1 None] have "i + n \<le> pos" by simp
  with match_quote_nonempty[OF assms(1)] show ?thesis by simp
qed

function extract_loop_earlier :: "block list \<Rightarrow> utf16 \<Rightarrow> block list" where
  "extract_loop_earlier results remaining =
     (case match_quote remaining of
        None \<Rightarrow> results
      | Some (index, g1, mlen) \<Rightarrow>
          (let title = trim_utf16 g1;
               startIndex = index + mlen
           in case scan_earlier remaining startIndex 1 None of
                (pos, Some e) \<Rightarrow>
                  extract_loop_earlier (results @ [\<lparr>title = title, content = substring remaining startIndex e\<rparr>])
                    (drop pos remaining)
              | (pos, None) \<Rightarrow> results))"
  by pat_completeness auto
termination
  by (relation "measure (\<lambda>(results, remaining). length remaining)")
     (auto dest: scan_earlier_drop_less)

declare extract_loop_earlier.simps [simp del]

definition extractOutermostQuotes_earlier :: "utf16 \<Rightarrow> block list" where
  "extractOutermostQuotes_earlier input = extract_loop_earlier [] input"


section \<open>Depth counting, one code unit at a time\<close>

text \<open>
  The two kinds of block, and the depth counting that the extractor performs, written one
  code unit at a time over the lower-cased text: \<open>matching_close tag u d\<close> is the offset in
  \<open>u\<close> of the closing tag that brings depth \<open>d\<close> to zero, where any text that begins
  \<open>[quote\<close> (or \<open>[spoiler\<close>, for a spoiler block) adds one to the depth, as in the extractor,
  and a closing tag takes one off; \<open>depth_after tag u d\<close> is the depth at the end of \<open>u\<close>,
  and fails when a closing tag comes at depth zero.  A text is \<open>balanced\<close> for a kind when
  it comes out at depth zero under this counting; tags of the other kind are ordinary text
  to it.  A text such as \<open>[quoted]\<close>, which is no tag of the dialect, opens a level under this
  counting, and a body that holds it without a further closing tag is not \<open>balanced\<close>.
\<close>

definition kind :: "utf16 \<Rightarrow> bool" where
  "kind t = (t = units ''quote'' \<or> t = units ''spoiler'')"

function matching_close :: "utf16 \<Rightarrow> utf16 \<Rightarrow> nat \<Rightarrow> nat option" where
  "matching_close tag [] d = None"
| "matching_close tag (c # cs) d =
     (if prefix (closeTagStr tag) (c # cs) then
        (if d - 1 = 0 then Some 0
         else map_option (\<lambda>k. length (closeTagStr tag) + k)
                (matching_close tag (drop (length (closeTagStr tag)) (c # cs)) (d - 1)))
      else if prefix (openTagStr tag) (c # cs) then
        map_option (\<lambda>k. length (openTagStr tag) + k)
          (matching_close tag (drop (length (openTagStr tag)) (c # cs)) (d + 1))
      else map_option Suc (matching_close tag cs d))"
  by pat_completeness auto
termination
  by (relation "measure (\<lambda>(tag, u, d). length u)") (auto simp: openTagStr_def closeTagStr_def units_def)

function depth_after :: "utf16 \<Rightarrow> utf16 \<Rightarrow> nat \<Rightarrow> nat option" where
  "depth_after tag [] d = Some d"
| "depth_after tag (c # cs) d =
     (if prefix (closeTagStr tag) (c # cs) then
        (if d = 0 then None
         else depth_after tag (drop (length (closeTagStr tag)) (c # cs)) (d - 1))
      else if prefix (openTagStr tag) (c # cs) then
        depth_after tag (drop (length (openTagStr tag)) (c # cs)) (d + 1)
      else depth_after tag cs d)"
  by pat_completeness auto
termination
  by (relation "measure (\<lambda>(tag, u, d). length u)") (auto simp: openTagStr_def closeTagStr_def units_def)

definition balanced :: "utf16 \<Rightarrow> utf16 \<Rightarrow> bool" where
  "balanced tag s = (depth_after tag (toLowerCase_utf16 s) 0 = Some 0)"

text \<open>
  How a text with blocks is written.  \<open>plain\<close> text holds no opening tag of either kind;
  \<open>no_tag tag\<close> text holds no tag of the kind \<open>tag\<close>.  A \<open>written_block\<close> is the text
  before a block, the block's opening tag \<open>[open_name=raw_title]\<close> with its name as it is
  spelled, its body and its closing tag as it is spelled; \<open>render\<close> writes a sequence of
  blocks and the text after the last one.  \<open>all_unmatched s\<close>: no opening tag of \<open>s\<close> has
  a closing tag that matches it.
\<close>

definition plain :: "utf16 \<Rightarrow> bool" where
  "plain s =
     (index_of (units ''[quote='') (map fold_case s) = None \<and>
      index_of (units ''[spoiler='') (map fold_case s) = None)"

definition open_tag :: "utf16 \<Rightarrow> utf16 \<Rightarrow> utf16" where
  "open_tag otag t = units ''['' @ otag @ units ''='' @ t @ units '']''"

record written_block =
  before_text :: utf16
  open_name :: utf16
  raw_title :: utf16
  body_text :: utf16
  close_tag :: utf16

definition well_formed :: "written_block \<Rightarrow> bool" where
  "well_formed b =
     (plain (before_text b) \<and> kind (map fold_case (open_name b)) \<and>
      raw_title b \<noteq> [] \<and> 0x5D \<notin> set (raw_title b) \<and>
      balanced (map fold_case (open_name b)) (body_text b) \<and>
      toLowerCase_utf16 (close_tag b) = closeTagStr (map fold_case (open_name b)))"

fun render :: "written_block list \<Rightarrow> utf16 \<Rightarrow> utf16" where
  "render [] tail = tail"
| "render (b # bs) tail =
     before_text b @ open_tag (open_name b) (raw_title b) @ body_text b @ close_tag b @ render bs tail"

definition outer_block :: "written_block \<Rightarrow> block" where
  "outer_block b = \<lparr>title = trim_utf16 (raw_title b), content = body_text b\<rparr>"

definition no_tag :: "utf16 \<Rightarrow> utf16 \<Rightarrow> bool" where
  "no_tag tag s =
     (index_of (openTagStr tag) (toLowerCase_utf16 s) = None \<and>
      index_of (closeTagStr tag) (toLowerCase_utf16 s) = None)"

definition all_unmatched :: "utf16 \<Rightarrow> bool" where
  "all_unmatched s =
     list_all (\<lambda>i. case match_open_here (drop i s) of
                      None \<Rightarrow> True
                    | Some (g1, g2, n) \<Rightarrow>
                        matching_close (toLowerCase_utf16 g1) (toLowerCase_utf16 (drop (i + n) s)) 1 = None)
       [0..<length s]"

section \<open>On a text without U+0130 the extractor refines the depth counting\<close>

text \<open>
  The inner loop reads the text through its length and through the positions of the tags
  of its own kind in the lower-cased copy, and through nothing else: on two texts that
  agree in these it returns the same.
\<close>

lemma scan_kind_only:
  assumes "length r = length r'"
    and "\<And>p. indexOf (toLowerCase_utf16 r) (openTagStr k) p = indexOf (toLowerCase_utf16 r') (openTagStr k) p"
    and "\<And>p. indexOf (toLowerCase_utf16 r) (closeTagStr k) p = indexOf (toLowerCase_utf16 r') (closeTagStr k) p"
  shows "scan k r p d e = scan k r' p d e"
  using assms
proof (induction k r p d e rule: scan.induct)
  case (1 tagName remaining pos depth endIndex)
  show ?case
  proof (cases "pos < length remaining \<and> depth > 0")
    case False
    with "1.prems"(1) show ?thesis by (simp add: scan_stop)
  next
    case True
    with "1.prems"(1) have True': "pos < length r' \<and> depth > 0" by simp
    show ?thesis
    proof (cases "indexOf (toLowerCase_utf16 remaining) (closeTagStr tagName) pos")
      case None
      with "1.prems"(3) show ?thesis by (simp add: scan_no_close)
    next
      case (Some nc)
      with "1.prems"(3) have Some_r: "indexOf (toLowerCase_utf16 r') (closeTagStr tagName) pos = Some nc"
        by simp
      show ?thesis
      proof (cases "indexOf (toLowerCase_utf16 remaining) (openTagStr tagName) pos")
        case None
        with "1.prems"(2) have None_r: "indexOf (toLowerCase_utf16 r') (openTagStr tagName) pos = None"
          by simp
        have "scan tagName remaining (nc + length (closeTagStr tagName)) (depth - 1)
                (if depth - 1 = 0 then Some nc else endIndex) =
              scan tagName r' (nc + length (closeTagStr tagName)) (depth - 1)
                (if depth - 1 = 0 then Some nc else endIndex)"
          by (rule "1.IH"(1)[OF True refl refl Some None "1.prems"])
        then show ?thesis
          using scan_close[of pos remaining depth tagName nc endIndex] True Some None
                scan_close[of pos r' depth tagName nc endIndex] True' Some_r None_r
          by simp
      next
        case Some': (Some no)
        with "1.prems"(2) have Some_r': "indexOf (toLowerCase_utf16 r') (openTagStr tagName) pos = Some no"
          by simp
        show ?thesis
        proof (cases "no < nc")
          case lt: True
          have "scan tagName remaining (no + length (openTagStr tagName)) (depth + 1) endIndex =
                scan tagName r' (no + length (openTagStr tagName)) (depth + 1) endIndex"
            by (rule "1.IH"(2)[OF True refl refl Some Some' lt "1.prems"])
          then show ?thesis
            using scan_open[of pos remaining depth tagName nc no endIndex] True Some Some' lt
                  scan_open[of pos r' depth tagName nc no endIndex] True' Some_r Some_r'
            by simp
        next
          case False
          have "scan tagName remaining (nc + length (closeTagStr tagName)) (depth - 1)
                  (if depth - 1 = 0 then Some nc else endIndex) =
                scan tagName r' (nc + length (closeTagStr tagName)) (depth - 1)
                  (if depth - 1 = 0 then Some nc else endIndex)"
            by (rule "1.IH"(3)[OF True refl refl Some Some' False "1.prems"])
          then show ?thesis
            using scan_close[of pos remaining depth tagName nc endIndex] True Some Some' False
                  scan_close[of pos r' depth tagName nc endIndex] True' Some_r Some_r'
            by simp
        qed
      qed
    qed
  qed
qed

lemma matching_close_None:
  "index_of (closeTagStr tag) u = None \<Longrightarrow> matching_close tag u d = None"
proof (induction tag u d rule: matching_close.induct)
  case (1 tag d)
  then show ?case by simp
next
  case (2 tag c cs d)
  from "2.prems" have np: "\<not> prefix (closeTagStr tag) (c # cs)" and cs: "index_of (closeTagStr tag) cs = None"
    by (auto split: if_splits)
  from index_of_drop_None[OF "2.prems"]
  have dr: "index_of (closeTagStr tag) (drop (length (openTagStr tag)) (c # cs)) = None" .
  from "2.IH"(2)[OF np _ dr] "2.IH"(3)[OF np _ cs] np show ?case by auto
qed

lemma scan_skip:
  assumes "Suc p < length r"
    and "\<not> prefix (closeTagStr tag) (drop p (toLowerCase_utf16 r))"
    and "\<not> prefix (openTagStr tag) (drop p (toLowerCase_utf16 r))"
    and "indexOf (toLowerCase_utf16 r) (closeTagStr tag) p = Some nc"
    and "0 < d"
  shows "scan tag r p d e = scan tag r (Suc p) d e"
proof -
  let ?low = "toLowerCase_utf16 r"
  from assms(1) have p: "p < length r" by simp
  have pl: "p < length ?low" using p length_le_toLowerCase_utf16[of r] by simp
  have c: "indexOf ?low (closeTagStr tag) (Suc p) = Some nc"
    using indexOf_skip[of p ?low "closeTagStr tag"] assms pl by simp
  have o: "indexOf ?low (openTagStr tag) (Suc p) = indexOf ?low (openTagStr tag) p"
    using indexOf_skip[of p ?low "openTagStr tag"] assms pl by simp
  note lt = assms(1)
  note True = assms(5)
  show ?thesis
  proof (cases "indexOf ?low (openTagStr tag) p")
    case None
    with o have o': "indexOf ?low (openTagStr tag) (Suc p) = None" by simp
    from scan_close[OF p True assms(4), of e] None
         scan_close[OF lt True c, of e] o'
    show ?thesis by simp
  next
    case (Some no)
    with o have o': "indexOf ?low (openTagStr tag) (Suc p) = Some no" by simp
    show ?thesis
    proof (cases "no < nc")
      case True': True
      from scan_open[OF p True assms(4) Some True'] scan_open[OF lt True c o' True']
      show ?thesis by simp
    next
      case False
      from scan_close[OF p True assms(4), of e] Some False
           scan_close[OF lt True c, of e] o'
      show ?thesis by simp
    qed
  qed
qed

text \<open>
  \<open>scan_finds\<close> holds of every text: when the counting over the lower-cased copy finds the
  matching closing tag at offset \<open>k\<close> from \<open>p\<close>, and that position lies within the length
  of the text itself, the inner loop ends there.  The position is one of the lower-cased
  copy.
\<close>

lemma scan_finds:
  assumes "0 < d" and "u = drop p (toLowerCase_utf16 r)"
    and "matching_close tag u d = Some k" and "p + k < length r"
  shows "scan tag r p d e = (p + k + length (closeTagStr tag), Some (p + k))"
  using assms
proof (induction tag u d arbitrary: p e k rule: matching_close.induct)
  case (1 tag d)
  then show ?case by simp
next
  case (2 tag c cs d)
  let ?low = "toLowerCase_utf16 r"
  let ?cl = "closeTagStr tag"
  let ?op = "openTagStr tag"
  from "2.prems"(4) have p: "p < length r" by simp
  have pl: "p < length ?low" using p length_le_toLowerCase_utf16[of r] by simp
  have u: "drop p ?low = c # cs" using "2.prems"(2) by simp
  show ?case
  proof (cases "prefix ?cl (c # cs)")
    case True
    then have nc: "indexOf ?low ?cl p = Some p" using indexOf_here[of p ?low ?cl] pl u by simp
    have no: "case indexOf ?low ?op p of None \<Rightarrow> True | Some no \<Rightarrow> \<not> no < p"
      using indexOf_bounds[of ?low ?op p] pl by (auto split: option.splits)
    note sc = scan_close[OF p "2.prems"(1) nc no, of e]
    show ?thesis
    proof (cases "d - 1 = 0")
      case True': True
      with True "2.prems"(3) have "k = 0" by simp
      with sc True' show ?thesis by (simp add: scan_stop)
    next
      case False
      have dr: "drop (length ?cl) (c # cs) = drop (p + length ?cl) ?low"
        using u by (metis add.commute drop_drop)
      from False have d1: "0 < d - 1" by simp
      from True False "2.prems"(3) obtain k' where
        k': "matching_close tag (drop (length ?cl) (c # cs)) (d - 1) = Some k'" and k: "k = length ?cl + k'"
        by auto
      have sc': "scan tag r p d e = scan tag r (p + length ?cl) (d - 1) e"
        using sc False by simp
      from "2.prems"(4) k have "p + length ?cl + k' < length r" by simp
      from "2.IH"(1)[OF True False d1 dr k' this, of e] sc' k show ?thesis by (simp add: add.assoc)
    qed
  next
    case False
    note ncl = False
    have cl: "indexOf ?low ?cl p \<noteq> None"
    proof
      assume "indexOf ?low ?cl p = None"
      then have "index_of ?cl (c # cs) = None" using indexOf_None[of p ?low ?cl] pl u by simp
      then have "matching_close tag (c # cs) d = None" by (rule matching_close_None)
      with "2.prems"(3) show False by simp
    qed
    then obtain nc where Some: "indexOf ?low ?cl p = Some nc" by auto
    show ?thesis
    proof (cases "prefix ?op (c # cs)")
      case True
      then have no: "indexOf ?low ?op p = Some p" using indexOf_here[of p ?low ?op] pl u by simp
      have "p \<le> nc" using indexOf_bounds[OF Some] pl by simp
      moreover have "nc \<noteq> p" using indexOf_here_iff[of p ?low ?cl] pl u ncl Some by auto
      ultimately have lt: "p < nc" by simp
      note so = scan_open[OF p "2.prems"(1) Some no lt, of e]
      have dr: "drop (length ?op) (c # cs) = drop (p + length ?op) ?low"
        using u by (metis add.commute drop_drop)
      have d1: "0 < d + 1" by simp
      from True ncl "2.prems"(3) obtain k' where
        k': "matching_close tag (drop (length ?op) (c # cs)) (d + 1) = Some k'" and k: "k = length ?op + k'"
        by auto
      from "2.prems"(4) k have "p + length ?op + k' < length r" by simp
      from "2.IH"(2)[OF ncl True d1 dr k' this, of e] so k show ?thesis by (simp add: add.assoc)
    next
      case False
      note nop = False
      have dr: "cs = drop (Suc p) ?low" using u by (metis drop_Suc tl_drop list.sel(3))
      from ncl nop "2.prems"(3) obtain k' where
        k': "matching_close tag cs d = Some k'" and k: "k = Suc k'"
        by auto
      from "2.prems"(4) k have sp: "Suc p < length r" and b: "Suc p + k' < length r" by simp_all
      have sk: "scan tag r p d e = scan tag r (Suc p) d e"
        using scan_skip[OF sp _ _ Some "2.prems"(1)] ncl nop u by simp
      from "2.IH"(3)[OF ncl nop "2.prems"(1) dr k' b, of e] sk k show ?thesis by simp
    qed
  qed
qed

lemma scan_refines:
  assumes "0 < d" and "stable r" and "u = drop p (toLowerCase_utf16 r)"
  shows "case matching_close tag u d of
           None \<Rightarrow> snd (scan tag r p d e) = e
         | Some k \<Rightarrow> scan tag r p d e = (p + k + length (closeTagStr tag), Some (p + k))"
  using assms(1,3)
proof (induction tag u d arbitrary: p e rule: matching_close.induct)
  case (1 tag d)
  have len: "length (toLowerCase_utf16 r) = length r" using assms(2) by (rule length_toLowerCase_utf16)
  from 1 len have "\<not> p < length r" by simp
  then show ?case by (simp add: scan_stop)
next
  case (2 tag c cs d)
  let ?low = "toLowerCase_utf16 r"
  let ?cl = "closeTagStr tag"
  let ?op = "openTagStr tag"
  have len: "length ?low = length r" using assms(2) by (rule length_toLowerCase_utf16)
  from "2.prems"(2) have "p < length ?low"
    by (metis drop_eq_Nil list.distinct(1) not_le)
  with len have p: "p < length r" by simp
  have pl: "p < length ?low" using p len by simp
  have u: "drop p ?low = c # cs" using "2.prems"(2) by simp
  show ?case
  proof (cases "prefix ?cl (c # cs)")
    case True
    then have nc: "indexOf ?low ?cl p = Some p" using indexOf_here[of p ?low ?cl] pl u by simp
    have no: "case indexOf ?low ?op p of None \<Rightarrow> True | Some no \<Rightarrow> \<not> no < p"
      using indexOf_bounds[of ?low ?op p] pl by (auto split: option.splits)
    note sc = scan_close[OF p "2.prems"(1) nc no, of e]
    show ?thesis
    proof (cases "d - 1 = 0")
      case True': True
      with sc True show ?thesis by (simp add: scan_stop)
    next
      case False
      have dr: "drop (length ?cl) (c # cs) = drop (p + length ?cl) ?low"
        using u by (metis add.commute drop_drop)
      from False have d1: "0 < d - 1" by simp
      have cp: "matching_close tag (c # cs) d =
                  map_option (\<lambda>k. length ?cl + k) (matching_close tag (drop (length ?cl) (c # cs)) (d - 1))"
        using True False by simp
      have sc': "scan tag r p d e = scan tag r (p + length ?cl) (d - 1) e"
        using sc False by simp
      note ih = "2.IH"(1)[OF True False d1 dr, of e]
      show ?thesis
      proof (cases "matching_close tag (drop (length ?cl) (c # cs)) (d - 1)")
        case None
        with ih cp sc' show ?thesis by simp
      next
        case (Some k)
        with ih cp sc' show ?thesis by (simp add: add.assoc)
      qed
    qed
  next
    case False
    note ncl = False
    show ?thesis
    proof (cases "prefix ?op (c # cs)")
      case True
      then have no: "indexOf ?low ?op p = Some p" using indexOf_here[of p ?low ?op] pl u by simp
      show ?thesis
      proof (cases "indexOf ?low ?cl p")
        case None
        then have "index_of ?cl (c # cs) = None" using indexOf_None[of p ?low ?cl] pl u by simp
        then have "matching_close tag (c # cs) d = None" by (rule matching_close_None)
        with None show ?thesis by (simp add: scan_no_close)
      next
        case (Some nc)
        have "p \<le> nc" using indexOf_bounds[OF Some] pl by simp
        moreover have "nc \<noteq> p" using indexOf_here_iff[of p ?low ?cl] pl u ncl Some by auto
        ultimately have lt: "p < nc" by simp
        note so = scan_open[OF p "2.prems"(1) Some no lt, of e]
        have dr: "drop (length ?op) (c # cs) = drop (p + length ?op) ?low"
          using u by (metis add.commute drop_drop)
        have d1: "0 < d + 1" by simp
        have cp: "matching_close tag (c # cs) d =
                  map_option (\<lambda>k. length ?op + k) (matching_close tag (drop (length ?op) (c # cs)) (d + 1))"
          using True ncl by simp
        note ih = "2.IH"(2)[OF ncl True d1 dr, of e]
        show ?thesis
        proof (cases "matching_close tag (drop (length ?op) (c # cs)) (d + 1)")
          case None
          with ih cp so show ?thesis by simp
        next
          case Some': (Some k)
          with ih cp so show ?thesis by (simp add: add.assoc)
        qed
      qed
    next
      case False
      note nop = False
      have dr: "cs = drop (Suc p) ?low" using u by (metis drop_Suc tl_drop list.sel(3))
      have cp: "matching_close tag (c # cs) d = map_option Suc (matching_close tag cs d)"
        using ncl nop by simp
      show ?thesis
      proof (cases "indexOf ?low ?cl p")
        case None
        then have "index_of ?cl (c # cs) = None" using indexOf_None[of p ?low ?cl] pl u by simp
        then have "matching_close tag (c # cs) d = None" by (rule matching_close_None)
        with None show ?thesis by (simp add: scan_no_close)
      next
        case (Some nc)
        have "p \<le> nc" using indexOf_bounds[OF Some] pl by simp
        moreover have "nc \<noteq> p" using indexOf_here_iff[of p ?low ?cl] pl u ncl Some by auto
        moreover have "nc + length ?cl \<le> length r" using indexOf_bounds[OF Some] pl len by simp
        moreover have "0 < length ?cl" by (simp add: closeTagStr_def units_def)
        ultimately have sp: "Suc p < length r" by linarith
        have sk: "scan tag r p d e = scan tag r (Suc p) d e"
          using scan_skip[OF sp _ _ Some "2.prems"(1)] ncl nop u by simp
        note ih = "2.IH"(3)[OF ncl nop "2.prems"(1) dr, of e]
        show ?thesis
        proof (cases "matching_close tag cs d")
          case None
          with ih cp sk show ?thesis by simp
        next
          case Some': (Some k)
          with ih cp sk show ?thesis by simp
        qed
      qed
    qed
  qed
qed

lemma kind_tags:
  assumes "kind tag"
  shows "0x5B \<notin> set (tl (closeTagStr tag))" and "0x5B \<notin> set (tl (openTagStr tag))"
    and "\<not> prefix (closeTagStr tag) (openTagStr tag @ x)"
    and "hd (closeTagStr tag @ x) = 0x5B"
    and "closeTagStr tag \<noteq> []" and "toLowerCase_utf16 tag = tag"
  using assms
  by (auto simp: kind_def closeTagStr_def openTagStr_def units_def toLowerCase_utf16_def lower_unit_def)

lemma kind_lower:
  assumes "kind (map fold_case otag)"
  shows "toLowerCase_utf16 otag = map fold_case otag"
proof -
  have one: "lower_unit u = [fold_case u]" if "fold_case u \<in> set (units ''quotespoiler'')" for u
    using that by (intro fold_lower_unit) (auto simp: units_def)
  have "set (map fold_case otag) \<subseteq> set (units ''quotespoiler'')"
    using assms by (auto simp: kind_def units_def)
  then have "\<forall>u \<in> set otag. lower_unit u = [fold_case u]"
    using one by auto
  then show ?thesis
    by (induction otag) (simp_all add: toLowerCase_utf16_def)
qed

lemma kind_stable: "kind (map fold_case otag) \<Longrightarrow> stable otag"
proof -
  assume "kind (map fold_case otag)"
  then have "set (map fold_case otag) \<subseteq> set (units ''quotespoiler'')"
    by (auto simp: kind_def units_def)
  moreover have "fold_case 0x130 \<notin> set (units ''quotespoiler'')"
    by (simp add: fold_case_def units_def)
  ultimately show ?thesis by (auto simp: stable_def)
qed

lemma balanced_matching_close:
  assumes "kind tag" and "depth_after tag lb k = Some 0"
  shows "matching_close tag (lb @ closeTagStr tag @ rest) (Suc k) = Some (length lb)"
  using assms
proof (induction tag lb k rule: depth_after.induct)
  case (1 tag d)
  then have "d = 0" by simp
  moreover obtain c cs where "closeTagStr tag @ rest = c # cs" "prefix (closeTagStr tag) (c # cs)"
    by (cases "closeTagStr tag @ rest") (auto simp: closeTagStr_def units_def)
  ultimately show ?case by simp
next
  case (2 tag c cs d)
  let ?cl = "closeTagStr tag"
  let ?op = "openTagStr tag"
  let ?x = "?cl @ rest"
  note k = kind_tags[OF "2.prems"(1)]
  have hx: "?x = [] \<or> hd ?x = 0x5B" using k(4) by simp
  show ?case
  proof (cases "prefix ?cl (c # cs)")
    case True
    with "2.prems"(2) have d: "d \<noteq> 0" and w: "depth_after tag (drop (length ?cl) (c # cs)) (d - 1) = Some 0"
      by (auto split: if_splits)
    from True have p: "prefix ?cl ((c # cs) @ ?x)" by (metis prefix_prefix)
    from True have len: "length ?cl \<le> length (c # cs)" by (rule prefix_length_le)
    then have dr: "drop (length ?cl) ((c # cs) @ ?x) = drop (length ?cl) (c # cs) @ ?x"
      by (rule drop_append_le)
    from "2.IH"(1)[OF True d "2.prems"(1) w] d
    have "matching_close tag (drop (length ?cl) (c # cs) @ ?x) d = Some (length (c # cs) - length ?cl)"
      by simp
    with p dr d len show ?thesis
      by (simp del: drop_append)
  next
    case False
    note ncl = False
    have ncl': "\<not> prefix ?cl ((c # cs) @ ?x)"
      by (rule prefix_append_bracket[OF ncl _ k(1) hx]) simp
    show ?thesis
    proof (cases "prefix ?op (c # cs)")
      case True
      with ncl "2.prems"(2) have w: "depth_after tag (drop (length ?op) (c # cs)) (d + 1) = Some 0"
        by (auto split: if_splits)
      from True have p: "prefix ?op ((c # cs) @ ?x)" by (metis prefix_prefix)
      from True have len: "length ?op \<le> length (c # cs)" by (rule prefix_length_le)
      then have dr: "drop (length ?op) ((c # cs) @ ?x) = drop (length ?op) (c # cs) @ ?x"
        by (rule drop_append_le)
      from "2.IH"(2)[OF ncl True "2.prems"(1) w]
      have "matching_close tag (drop (length ?op) (c # cs) @ ?x) (Suc (Suc d)) = Some (length (c # cs) - length ?op)"
        by simp
      with p ncl' dr len show ?thesis
        by (simp del: drop_append)
    next
      case False
      have nop': "\<not> prefix ?op ((c # cs) @ ?x)"
        by (rule prefix_append_bracket[OF False _ k(2) hx]) simp
      from ncl False "2.prems"(2) have w: "depth_after tag cs d = Some 0" by simp
      from "2.IH"(3)[OF ncl False "2.prems"(1) w] ncl' nop' show ?thesis by simp
    qed
  qed
qed

lemma match_title_literal:
  assumes "t \<noteq> []" and "0x5D \<notin> set t"
  shows "match_title (t @ units '']'' @ rest) = Some t"
proof -
  have "takeWhile (\<lambda>u. u \<noteq> 0x5D) (t @ units '']'' @ rest) = t"
    using assms(2) by (subst takeWhile_append2) (auto simp: units_def)
  with assms(1) show ?thesis by (simp add: match_title_def Let_def)
qed

lemma match_open_here_open_tag:
  assumes "kind (map fold_case otag)" and "t \<noteq> []" and "0x5D \<notin> set t"
  shows "match_open_here (open_tag otag t @ rest) = Some (otag, t, length (open_tag otag t))"
proof -
  from assms(1) consider (q) "map fold_case otag = units ''quote''" | (s) "map fold_case otag = units ''spoiler''"
    by (auto simp: kind_def)
  then show ?thesis
  proof cases
    case q
    then have "length (map fold_case otag) = length (units ''quote'')" by simp
    then have len: "length otag = 5" by simp
    have low: "map fold_case (open_tag otag t @ rest) = units ''[quote='' @ map fold_case (t @ units '']'' @ rest)"
      using q by (simp add: open_tag_def units_def fold_case_def)
    have dr: "drop 7 (open_tag otag t @ rest) = t @ units '']'' @ rest"
      using len by (simp add: open_tag_def)
    have tk: "take 5 (drop 1 (open_tag otag t @ rest)) = otag"
      using len by (simp add: open_tag_def)
    show ?thesis
      unfolding match_open_here_def low dr tk
      using match_title_literal[OF assms(2,3), of rest] len
      by (simp add: open_tag_def)
  next
    case s
    then have "length (map fold_case otag) = length (units ''spoiler'')" by simp
    then have len: "length otag = 7" by simp
    have low: "map fold_case (open_tag otag t @ rest) = units ''[spoiler='' @ map fold_case (t @ units '']'' @ rest)"
      using s by (simp add: open_tag_def units_def fold_case_def)
    have nq: "\<not> prefix (units ''[quote='') (units ''[spoiler='' @ x)" for x
      by (simp add: units_def)
    have dr: "drop 9 (open_tag otag t @ rest) = t @ units '']'' @ rest"
      using len by (simp add: open_tag_def)
    have tk: "take 7 (drop 1 (open_tag otag t @ rest)) = otag"
      using len by (simp add: open_tag_def)
    show ?thesis
      unfolding match_open_here_def low dr tk
      using match_title_literal[OF assms(2,3), of rest] len nq
      by (simp add: open_tag_def)
  qed
qed

lemma match_open_here_None:
  assumes "\<not> prefix (units ''[quote='') (map fold_case s)"
    and "\<not> prefix (units ''[spoiler='') (map fold_case s)"
  shows "match_open_here s = None"
  using assms by (simp add: match_open_here_def)

lemma plain_Cons:
  assumes "plain (c # cs)"
  shows "plain cs" and "\<not> prefix (units ''[quote='') (map fold_case (c # cs))"
    and "\<not> prefix (units ''[spoiler='') (map fold_case (c # cs))"
  using assms by (auto simp: plain_def split: if_splits)

lemma match_open_plain_append:
  assumes "plain pre" and "x = [] \<or> hd x = 0x5B"
  shows "match_open (pre @ x) = map_option (\<lambda>(i, g1, g2, n). (length pre + i, g1, g2, n)) (match_open x)"
  using assms(1)
proof (induction pre)
  case Nil
  show ?case by (simp add: option.map_ident case_prod_unfold)
next
  case (Cons c cs)
  note pl = plain_Cons[OF Cons.prems]
  have hx: "map fold_case x = [] \<or> hd (map fold_case x) = 0x5B"
    using assms(2) by (cases x) (auto simp: fold_case_def)
  have "\<not> prefix (units ''[quote='') (map fold_case ((c # cs) @ x))"
    unfolding map_append
    by (rule prefix_append_bracket[OF pl(2) _ _ hx]) (simp_all add: units_def)
  moreover have "\<not> prefix (units ''[spoiler='') (map fold_case ((c # cs) @ x))"
    unfolding map_append
    by (rule prefix_append_bracket[OF pl(3) _ _ hx]) (simp_all add: units_def)
  ultimately have "match_open_here ((c # cs) @ x) = None"
    by (rule match_open_here_None)
  with Cons.IH[OF pl(1)] show ?case
    by (cases "match_open x") (auto simp: case_prod_unfold)
qed

lemma match_open_plain: "plain s \<Longrightarrow> match_open s = None"
  using match_open_plain_append[of s "[]"] by simp

lemma match_open_first:
  assumes "plain pre" and "kind (map fold_case otag)" and "t \<noteq> []" and "0x5D \<notin> set t"
  shows "match_open (pre @ open_tag otag t @ rest) = Some (length pre, otag, t, length (open_tag otag t))"
proof -
  obtain c cs where x: "open_tag otag t @ rest = c # cs" and c: "c = 0x5B"
    by (auto simp: open_tag_def units_def)
  have "match_open (open_tag otag t @ rest) = Some (0, otag, t, length (open_tag otag t))"
    using match_open_here_open_tag[OF assms(2-4), of rest] x by simp
  moreover have "open_tag otag t @ rest = [] \<or> hd (open_tag otag t @ rest) = 0x5B"
    by (simp add: open_tag_def units_def)
  ultimately show ?thesis
    using match_open_plain_append[OF assms(1), of "open_tag otag t @ rest"] by simp
qed

lemma lower_stable:
  assumes "0x307 \<notin> set (toLowerCase_utf16 s)"
  shows "stable s"
proof -
  have "u \<in> set s \<Longrightarrow> set (lower_unit u) \<subseteq> set (toLowerCase_utf16 s)" for u
    by (induction s) (auto simp: toLowerCase_utf16_def)
  moreover have "0x307 \<in> set (lower_unit 0x130)" by (simp add: lower_unit_def)
  ultimately show ?thesis using assms by (auto simp: stable_def)
qed

lemma close_tag_stable:
  assumes "kind tag" and "toLowerCase_utf16 ctag = closeTagStr tag"
  shows "stable ctag" and "length ctag = length (closeTagStr tag)"
proof -
  have "0x307 \<notin> set (closeTagStr tag)"
    using assms(1) by (auto simp: kind_def closeTagStr_def units_def)
  with assms(2) show "stable ctag" by (intro lower_stable) simp
  then show "length ctag = length (closeTagStr tag)"
    using assms(2) length_toLowerCase_utf16[of ctag] by simp
qed

lemma scan_balanced:
  assumes "kind tag" and "balanced tag body" and "toLowerCase_utf16 ctag = closeTagStr tag"
    and "stable pre" and "length (toLowerCase_utf16 body) < length (body @ ctag @ rest)"
  shows "scan tag (pre @ body @ ctag @ rest) (length pre) 1 None =
           (length pre + length (toLowerCase_utf16 body) + length (closeTagStr tag),
            Some (length pre + length (toLowerCase_utf16 body)))"
proof -
  let ?r = "pre @ body @ ctag @ rest"
  note len = length_toLowerCase_utf16[OF assms(4)]
  have u: "toLowerCase_utf16 body @ closeTagStr tag @ toLowerCase_utf16 rest =
             drop (length pre) (toLowerCase_utf16 ?r)"
    using assms(3) len by simp
  have m: "matching_close tag (toLowerCase_utf16 body @ closeTagStr tag @ toLowerCase_utf16 rest) 1 =
          Some (length (toLowerCase_utf16 body))"
    using assms(2) balanced_matching_close[OF assms(1), of "toLowerCase_utf16 body" 0 "toLowerCase_utf16 rest"]
    by (simp add: balanced_def)
  have b: "length pre + length (toLowerCase_utf16 body) < length ?r"
    using assms(5) by simp
  show ?thesis
    using scan_finds[of 1 _ "length pre" ?r tag "length (toLowerCase_utf16 body)" None, OF _ u m b]
    by simp
qed

text \<open>
  One round of the outer loop at a block whose body is balanced for the block's kind, on
  any body and any text after it.  The content runs from the start of the body for the
  length of the lower-cased body, and the scan resumes after as many code units again as
  the closing tag has.
\<close>

lemma extract_loop_step_shifted:
  assumes "plain pre" and "kind (map fold_case otag)" and "t \<noteq> []" and "0x5D \<notin> set t"
    and "balanced (map fold_case otag) body"
    and "toLowerCase_utf16 ctag = closeTagStr (map fold_case otag)"
    and "stable (pre @ t)"
    and "length (toLowerCase_utf16 body) < length (body @ ctag @ rest)"
  shows "extract_loop acc (pre @ open_tag otag t @ body @ ctag @ rest) =
           extract_loop
             (acc @ [\<lparr>title = trim_utf16 t,
                      content = take (length (toLowerCase_utf16 body)) (body @ ctag @ rest)\<rparr>])
             (drop (length (toLowerCase_utf16 body) + length (closeTagStr (map fold_case otag)))
                (body @ ctag @ rest))"
proof -
  let ?o = "open_tag otag t"
  let ?x = "body @ ctag @ rest"
  let ?r = "pre @ ?o @ ?x"
  let ?n = "length (toLowerCase_utf16 body)"
  let ?m = "length (closeTagStr (map fold_case otag))"
  have m: "match_open ?r = Some (length pre, otag, t, length ?o)"
    using match_open_first[OF assms(1-4)] by simp
  have tg: "toLowerCase_utf16 otag = map fold_case otag" using assms(2) by (rule kind_lower)
  have st: "stable (pre @ ?o)"
    using assms(7) kind_stable[OF assms(2)] by (simp add: open_tag_def)
  have sc: "scan (toLowerCase_utf16 otag) ?r (length pre + length ?o) 1 None =
              (length pre + length ?o + ?n + ?m, Some (length pre + length ?o + ?n))"
    using scan_balanced[OF assms(2) assms(5) assms(6) st assms(8)] tg by simp
  have sub: "substring ?r (length pre + length ?o) (length pre + length ?o + ?n) = take ?n ?x"
    by (simp add: substring_def)
  have dr: "drop (length pre + length ?o + ?n + ?m) ?r = drop (?n + ?m) ?x"
    by (simp add: add.assoc)
  show ?thesis
    by (subst extract_loop.simps) (simp only: m sc sub dr option.case prod.case Let_def)
qed

text \<open>When the body has no U+0130, the content is the body and the scan resumes after the closing tag.\<close>

lemma extract_loop_step:
  assumes "plain pre" and "kind (map fold_case otag)" and "t \<noteq> []" and "0x5D \<notin> set t"
    and "balanced (map fold_case otag) body"
    and "toLowerCase_utf16 ctag = closeTagStr (map fold_case otag)"
    and "stable (pre @ t @ body)"
  shows "extract_loop acc (pre @ open_tag otag t @ body @ ctag @ rest) =
           extract_loop (acc @ [\<lparr>title = trim_utf16 t, content = body\<rparr>]) rest"
proof -
  from assms(7) have st: "stable (pre @ t)" and sb: "stable body" by simp_all
  note ct = close_tag_stable[OF assms(2) assms(6)]
  have n: "length (toLowerCase_utf16 body) = length body" using sb by (rule length_toLowerCase_utf16)
  have "0 < length (closeTagStr (map fold_case otag))" by (simp add: closeTagStr_def units_def)
  with ct(2) n have g: "length (toLowerCase_utf16 body) < length (body @ ctag @ rest)" by simp
  from extract_loop_step_shifted[OF assms(1-6) st g, of acc] n ct(2) show ?thesis by simp
qed

lemma extract_loop_skip:
  assumes "plain pre" and "kind (map fold_case otag)" and "t \<noteq> []" and "0x5D \<notin> set t"
    and "matching_close (map fold_case otag) (toLowerCase_utf16 u) 1 = None"
    and "stable (pre @ open_tag otag t @ u)"
  shows "extract_loop acc (pre @ open_tag otag t @ u) = extract_loop acc u"
proof -
  let ?o = "open_tag otag t"
  let ?r = "pre @ ?o @ u"
  have m: "match_open ?r = Some (length pre, otag, t, length ?o)"
    using match_open_first[OF assms(1-4)] by simp
  have tg: "toLowerCase_utf16 otag = map fold_case otag" using assms(2) by (rule kind_lower)
  from assms(6) have st: "stable (pre @ ?o)" by simp
  have u: "toLowerCase_utf16 u = drop (length pre + length ?o) (toLowerCase_utf16 ?r)"
    using length_toLowerCase_utf16[OF st] by simp
  have "snd (scan (toLowerCase_utf16 otag) ?r (length pre + length ?o) 1 None) = None"
    using scan_refines[of 1 ?r _ "length pre + length ?o" "toLowerCase_utf16 otag" None, OF _ assms(6) u]
      assms(5) tg
    by simp
  then obtain pos where sc: "scan (toLowerCase_utf16 otag) ?r (length pre + length ?o) 1 None = (pos, None)"
    by (metis prod.collapse)
  have dr: "drop (length pre + length ?o) ?r = u" by simp
  show ?thesis
    by (subst extract_loop.simps) (simp only: m sc dr option.case prod.case Let_def)
qed

lemma extract_loop_plain: "plain s \<Longrightarrow> extract_loop acc s = acc"
  by (subst extract_loop.simps) (simp add: match_open_plain)

lemma extract_loop_written:
  assumes "\<forall>b \<in> set bs. well_formed b \<and> stable (before_text b @ raw_title b @ body_text b)"
    and "plain tail"
  shows "extract_loop acc (render bs tail) = acc @ map outer_block bs"
  using assms(1)
proof (induction bs arbitrary: acc)
  case Nil
  then show ?case by (simp add: extract_loop_plain[OF assms(2)])
next
  case (Cons b bs)
  then have wf: "well_formed b" and st: "stable (before_text b @ raw_title b @ body_text b)"
    and rest: "\<forall>b \<in> set bs. well_formed b \<and> stable (before_text b @ raw_title b @ body_text b)"
    by simp_all
  from wf st have "extract_loop acc (render (b # bs) tail) =
                  extract_loop (acc @ [outer_block b]) (render bs tail)"
    unfolding well_formed_def outer_block_def render.simps
    by (intro extract_loop_step) simp_all
  with Cons.IH[OF rest] show ?case by simp
qed

lemma depth_after_no_tag:
  assumes "index_of (openTagStr tag) u = None" and "index_of (closeTagStr tag) u = None"
  shows "depth_after tag u d = Some d"
  using assms by (induction u) (auto split: if_splits)

lemma no_tag_balanced: "no_tag tag s \<Longrightarrow> balanced tag s"
  by (simp add: no_tag_def balanced_def depth_after_no_tag)

lemma match_open_at:
  "match_open s = Some (i, g1, g2, n) \<Longrightarrow> i < length s \<and> match_open_here (drop i s) = Some (g1, g2, n)"
proof (induction s arbitrary: i)
  case Nil
  then show ?case by simp
next
  case (Cons c cs)
  show ?case
  proof (cases "match_open_here (c # cs)")
    case None
    with Cons.prems obtain j where "match_open cs = Some (j, g1, g2, n)" "i = Suc j" by auto
    with Cons.IH show ?thesis by auto
  next
    case (Some a)
    with Cons.prems show ?thesis by (cases a) auto
  qed
qed

lemma all_unmatchedD:
  assumes "all_unmatched s" and "i < length s" and "match_open_here (drop i s) = Some (g1, g2, n)"
  shows "matching_close (toLowerCase_utf16 g1) (toLowerCase_utf16 (drop (i + n) s)) 1 = None"
proof -
  from assms(1,2) have "case match_open_here (drop i s) of
                      None \<Rightarrow> True
                    | Some (g1, g2, n) \<Rightarrow>
                        matching_close (toLowerCase_utf16 g1) (toLowerCase_utf16 (drop (i + n) s)) 1 = None"
    by (simp add: all_unmatched_def list_all_iff)
  with assms(3) show ?thesis by simp
qed

lemma all_unmatchedI:
  assumes "\<And>i g1 g2 n. i < length s \<Longrightarrow> match_open_here (drop i s) = Some (g1, g2, n) \<Longrightarrow>
             matching_close (toLowerCase_utf16 g1) (toLowerCase_utf16 (drop (i + n) s)) 1 = None"
  shows "all_unmatched s"
  unfolding all_unmatched_def list_all_iff
proof
  fix i assume "i \<in> set [0..<length s]"
  then have i: "i < length s" by simp
  show "case match_open_here (drop i s) of
                      None \<Rightarrow> True
                    | Some (g1, g2, n) \<Rightarrow>
                        matching_close (toLowerCase_utf16 g1) (toLowerCase_utf16 (drop (i + n) s)) 1 = None"
  proof (cases "match_open_here (drop i s)")
    case None
    then show ?thesis by simp
  next
    case (Some a)
    obtain g1 g2 n where "a = (g1, g2, n)" by (cases a)
    with Some assms[OF i] show ?thesis by simp
  qed
qed

lemma all_unmatched_drop:
  assumes "all_unmatched s"
  shows "all_unmatched (drop k s)"
proof (rule all_unmatchedI)
  fix i g1 g2 n
  assume i: "i < length (drop k s)" and m: "match_open_here (drop i (drop k s)) = Some (g1, g2, n)"
  from i have i': "k + i < length s" by simp
  from m have m': "match_open_here (drop (k + i) s) = Some (g1, g2, n)" by (simp add: add.commute)
  from all_unmatchedD[OF assms i' m']
  show "matching_close (toLowerCase_utf16 g1) (toLowerCase_utf16 (drop (i + n) (drop k s))) 1 = None"
    by (simp add: add.commute add.left_commute)
qed

lemma extract_loop_all_unmatched:
  "all_unmatched s \<Longrightarrow> stable s \<Longrightarrow> extract_loop acc s = acc"
proof (induction "length s" arbitrary: s rule: less_induct)
  case less
  show ?case
  proof (cases "match_open s")
    case None
    then show ?thesis by (subst extract_loop.simps) simp
  next
    case (Some a)
    obtain i g1 g2 n where a: "a = (i, g1, g2, n)" by (cases a)
    from match_open_at[OF Some[unfolded a]] have i: "i < length s"
      and h: "match_open_here (drop i s) = Some (g1, g2, n)" by simp_all
    have cp: "matching_close (toLowerCase_utf16 g1) (toLowerCase_utf16 (drop (i + n) s)) 1 = None"
      by (rule all_unmatchedD[OF less.prems(1) i h])
    have u: "toLowerCase_utf16 (drop (i + n) s) = drop (i + n) (toLowerCase_utf16 s)"
      using less.prems(2) by (simp add: drop_toLowerCase_utf16)
    have "snd (scan (toLowerCase_utf16 g1) s (i + n) 1 None) = None"
      using scan_refines[of 1 s _ "i + n" "toLowerCase_utf16 g1" None, OF _ less.prems(2) u] cp by simp
    then obtain pos where sc: "scan (toLowerCase_utf16 g1) s (i + n) 1 None = (pos, None)"
      by (metis prod.collapse)
    have step: "extract_loop acc s = extract_loop acc (drop (i + n) s)"
      by (subst extract_loop.simps) (simp only: Some a sc option.case prod.case Let_def)
    have "length (drop (i + n) s) < length s"
      using match_open_drop_less[OF Some[unfolded a]] by simp
    from less.hyps[OF this all_unmatched_drop[OF less.prems(1)] stable_drop[OF less.prems(2)]] step
    show ?thesis by simp
  qed
qed



section \<open>Properties of the BBCode extractor\<close>


text \<open>
  On a text without U+0130 in or before its blocks, written as a sequence of blocks of
  either kind, each with plain text before it and a body balanced for its kind, the
  extractor returns exactly these outermost blocks, in order, each with its title trimmed
  and its body as it is written, nested tags included.
\<close>

lemma extractOutermostQuotes_written:
  assumes "\<forall>b \<in> set bs. well_formed b \<and> stable (before_text b @ raw_title b @ body_text b)"
    and "plain tail"
  shows "extractOutermostQuotes (render bs tail) = map outer_block bs"
  using assms by (simp add: extractOutermostQuotes_def extract_loop_written)

text \<open>The three-level nesting: one block, titled \<open>A\<close>, whose content holds both inner pairs of tags.\<close>

definition three_level :: written_block where
  "three_level =
     \<lparr>before_text = [], open_name = units ''quote'', raw_title = units ''A'',
      body_text = units ''[quote=B][quote=C]...[/quote][/quote]'', close_tag = units ''[/quote]''\<rparr>"

lemma extractOutermostQuotes_three_level:
  "extractOutermostQuotes (units ''[quote=A][quote=B][quote=C]...[/quote][/quote][/quote]'') =
     [\<lparr>title = units ''A'', content = units ''[quote=B][quote=C]...[/quote][/quote]''\<rparr>]"
proof -
  have wf: "well_formed three_level" by code_simp
  have st: "stable (before_text three_level @ raw_title three_level @ body_text three_level)"
    by (simp add: three_level_def)
  have p: "plain []" by code_simp
  have r: "render [three_level] [] = units ''[quote=A][quote=B][quote=C]...[/quote][/quote][/quote]''"
    by (simp add: three_level_def open_tag_def units_def)
  have o: "outer_block three_level =
             \<lparr>title = units ''A'', content = units ''[quote=B][quote=C]...[/quote][/quote]''\<rparr>"
    by code_simp
  from extractOutermostQuotes_written[of "[three_level]" "[]"] wf st p
  have "extractOutermostQuotes (render [three_level] []) = map outer_block [three_level]" by simp
  with r o show ?thesis by simp
qed

text \<open>
  The block \<open>[quote=A]\<close>, U+0130, \<open>x[/quote]\<close> is well formed: its body holds no tag at all.
\<close>

definition dotted_block :: written_block where
  "dotted_block =
     \<lparr>before_text = [], open_name = units ''quote'', raw_title = units ''A'',
      body_text = [0x130] @ units ''x'', close_tag = units ''[/quote]''\<rparr>"

lemma dotted_block_well_formed:
  "well_formed dotted_block \<and>
   render [dotted_block] [] = units ''[quote=A]'' @ [0x130] @ units ''x[/quote]'' \<and>
   outer_block dotted_block = \<lparr>title = units ''A'', content = [0x130] @ units ''x''\<rparr>"
  by code_simp

text \<open>
  C2 at two inputs whose quote blocks are balanced.  In \<open>[quote=A]\<close>, U+0130, \<open>x[/quote]\<close> the
  closing tag is found in the lower-cased copy, where U+0130 takes two code units, and its
  position there is used on the text itself: the content returned is the body and the
  opening bracket of the closing tag.  In \<open>[quote=A]x [quoted] y[/quote]\<close> the text
  \<open>[quoted]\<close>, which is no opening tag, is counted as one, the closing tag is taken for its
  closing tag, and no block is returned.
\<close>

theorem extractOutermostQuotes_balanced_inputs:
  "extractOutermostQuotes (units ''[quote=A]'' @ [0x130] @ units ''x[/quote]'') =
     [\<lparr>title = units ''A'', content = [0x130] @ units ''x[''\<rparr>] \<and>
   extractOutermostQuotes (units ''[quote=A]x [quoted] y[/quote]'') = []"
  by code_simp



text \<open>
  An opening tag with no matching closing tag is skipped, on a text without U+0130: the
  result is that of the text after the opening tag, so blocks balanced later are still
  extracted.  And when no opening tag of such a text has a matching closing tag, the result
  is the empty sequence.
\<close>

lemma unmatched_opener_skipped:
  assumes "plain pre" and "kind (map fold_case otag)" and "t \<noteq> []" and "0x5D \<notin> set t"
    and "matching_close (map fold_case otag) (toLowerCase_utf16 u) 1 = None"
    and "stable (pre @ open_tag otag t @ u)"
  shows "extractOutermostQuotes (pre @ open_tag otag t @ u) = extractOutermostQuotes u"
  using assms by (simp add: extractOutermostQuotes_def extract_loop_skip)

lemma all_unmatched_empty:
  assumes "all_unmatched s" and "stable s"
  shows "extractOutermostQuotes s = []"
  using assms by (simp add: extractOutermostQuotes_def extract_loop_all_unmatched)

text \<open>
  An unmatched \<open>[quote=A]\<close> before a balanced block titled \<open>B\<close>: the block \<open>B\<close> is
  extracted.  An input with two opening tags and no closing tag of their kinds: nothing is.
\<close>

lemma unmatched_opener_examples:
  "extractOutermostQuotes (units ''[quote=A] [quote=B]x[/quote]'') = [\<lparr>title = units ''B'', content = units ''x''\<rparr>] \<and>
   extractOutermostQuotes (units ''[quote=A][spoiler=B]x[/b]'') = []"
proof -
  let ?q = "units ''quote''"
  let ?u = "units '' [quote=B]x[/quote]''"
  have p: "plain []" by code_simp
  have k: "kind (map fold_case ?q)" by code_simp
  have m: "matching_close (map fold_case ?q) (toLowerCase_utf16 ?u) 1 = None" by code_simp
  have t: "units ''A'' \<noteq> []" "0x5D \<notin> set (units ''A'')" by code_simp+
  have o: "[] @ open_tag ?q (units ''A'') @ ?u = units ''[quote=A] [quote=B]x[/quote]''"
    by (simp add: open_tag_def units_def)
  have st: "stable ([] @ open_tag ?q (units ''A'') @ ?u)" by (simp add: open_tag_def)
  have r: "extractOutermostQuotes ?u = [\<lparr>title = units ''B'', content = units ''x''\<rparr>]" by code_simp
  have a: "all_unmatched (units ''[quote=A][spoiler=B]x[/b]'')" by code_simp
  from unmatched_opener_skipped[OF p k t m st] o r all_unmatched_empty[OF a]
  show ?thesis by simp
qed

text \<open>
  The earlier copy of the function stops at an opening tag with no matching closing tag:
  on \<open>[quote=A]x[quote=B]y[/quote]\<close> it returns nothing, where the later copy returns the
  block \<open>B\<close>.
\<close>

lemma extractOutermostQuotes_earlier_stops:
  "extractOutermostQuotes_earlier (units ''[quote=A]x[quote=B]y[/quote]'') = [] \<and>
   extractOutermostQuotes (units ''[quote=A]x[quote=B]y[/quote]'') = [\<lparr>title = units ''B'', content = units ''y''\<rparr>]"
  by code_simp

text \<open>
  C4 at the text of seventeen U+0130, \<open>[/quote]\<close>, \<open>[quote=A]x\<close>.  Its one opening tag has no
  closing tag after it, so the text has no balanced block.  The inner loop starts at
  position 34, after the opening tag; in the lower-cased copy, which is seventeen code
  units longer, position 34 is where the closing tag before the opening tag begins.  That
  closing tag is taken for the matching one, and a block titled \<open>A\<close> with empty content is
  returned.
\<close>

theorem extractOutermostQuotes_no_balanced_block:
  "all_unmatched (replicate 17 0x130 @ units ''[/quote][quote=A]x'') \<and>
   extractOutermostQuotes (replicate 17 0x130 @ units ''[/quote][quote=A]x'') =
     [\<lparr>title = units ''A'', content = []\<rparr>]"
  by code_simp


section \<open>Plain objects used as dictionaries\<close>

text \<open>
  \<open>parseMediaInfo\<close> keeps the fields of a section, and the sections of a report, in objects
  made by the literal \<open>{}\<close>.  Such an object has the prototype \<open>Object.prototype\<close>: the
  operator \<open>in\<close> and a read \<open>obj[key]\<close> find the members of the prototype under their names,
  before any property of that name is stored.  These are the names of \<open>Object.prototype\<close>
  and of \<open>Array.prototype\<close> (ECMAScript 2023 with its annex B).
\<close>

definition Object_prototype_names :: "string list" where
  "Object_prototype_names =
     [''constructor'', ''__defineGetter__'', ''__defineSetter__'', ''hasOwnProperty'',
      ''__lookupGetter__'', ''__lookupSetter__'', ''isPrototypeOf'', ''propertyIsEnumerable'',
      ''toString'', ''valueOf'', ''__proto__'', ''toLocaleString'']"

definition Array_prototype_names :: "string list" where
  "Array_prototype_names =
     [''constructor'', ''at'', ''concat'', ''copyWithin'', ''fill'', ''find'', ''findIndex'',
      ''findLast'', ''findLastIndex'', ''lastIndexOf'', ''pop'', ''push'', ''reverse'', ''shift'',
      ''unshift'', ''slice'', ''sort'', ''splice'', ''includes'', ''indexOf'', ''join'', ''keys'',
      ''entries'', ''values'', ''forEach'', ''filter'', ''flat'', ''flatMap'', ''map'', ''every'',
      ''some'', ''reduce'', ''reduceRight'', ''toReversed'', ''toSorted'', ''toSpliced'', ''with'',
      ''toLocaleString'', ''toString'']"

text \<open>Decimal digits, the text of a number and the number of a text of digits.\<close>

definition is_digit :: "char \<Rightarrow> bool" where
  "is_digit c = (c \<in> set ''0123456789'')"

definition digit_char :: "nat \<Rightarrow> char" where
  "digit_char d = ''0123456789'' ! d"

fun show_nat :: "nat \<Rightarrow> string" where
  "show_nat n = (if n < 10 then [digit_char n] else show_nat (n div 10) @ [digit_char (n mod 10)])"

declare show_nat.simps [simp del]

definition digit_value :: "char \<Rightarrow> nat" where
  "digit_value c = (case index_of [c] ''0123456789'' of Some d \<Rightarrow> d | None \<Rightarrow> 0)"

definition parse_digits :: "string \<Rightarrow> nat" where
  "parse_digits ds = foldl (\<lambda>n c. 10 * n + digit_value c) 0 ds"

text \<open>
  The value of a field.  The declared type is \<open>string | string[]\<close>: \<open>Single\<close> and \<open>Many\<close>.
  At run time two more shapes occur.  \<open>Bare h\<close> is a value that is neither a string nor an
  array: a built-in member of a prototype under its name, or the length of an array; it
  is only ever read, never stored.  \<open>Headed h vs\<close> is the array that begins with such a
  value and goes on with the strings \<open>vs\<close>.
\<close>

datatype head = Builtin string | Length nat

datatype field_value = Single string | Many "string list" | Headed head "string list" | Bare head

definition is_array :: "field_value \<Rightarrow> bool" where
  "is_array f = (case f of Many vs \<Rightarrow> True | Headed h vs \<Rightarrow> True | _ \<Rightarrow> False)"

definition elements :: "field_value \<Rightarrow> field_value list" where
  "elements f =
     (case f of Many vs \<Rightarrow> map Single vs | Headed h vs \<Rightarrow> Bare h # map Single vs | _ \<Rightarrow> [])"

text \<open>
  The object \<open>data\<close> of one section: its own properties in the order they were stored, and
  the array that an assignment to \<open>__proto__\<close> has put in the place of its prototype, if any.
\<close>

record data_object =
  own :: "(string \<times> field_value) list"
  installed :: "field_value option"

definition empty_data :: data_object where
  "empty_data = \<lparr>own = [], installed = None\<rparr>"

text \<open>What an object with no own property \<open>k\<close> finds under \<open>k\<close> on its prototype chain.\<close>

definition inherited :: "field_value option \<Rightarrow> string \<Rightarrow> field_value option" where
  "inherited proto k =
     (case proto of
        None \<Rightarrow> if k \<in> set Object_prototype_names then Some (Bare (Builtin k)) else None
      | Some arr \<Rightarrow>
          if k = ''__proto__'' then Some arr
          else if k = ''length'' then Some (Bare (Length (length (elements arr))))
          else (case index_of [k] (map show_nat [0..<length (elements arr)]) of
                  Some i \<Rightarrow> Some (elements arr ! i)
                | None \<Rightarrow>
                    if k \<in> set Array_prototype_names \<or> k \<in> set Object_prototype_names
                    then Some (Bare (Builtin k)) else None))"

text \<open>\<open>data[key]\<close>, with \<open>None\<close> for \<open>undefined\<close>; \<open>key in data\<close> is \<open>lookup d key \<noteq> None\<close>.\<close>

definition lookup :: "data_object \<Rightarrow> string \<Rightarrow> field_value option" where
  "lookup d k = (case map_of (own d) k of Some f \<Rightarrow> Some f | None \<Rightarrow> inherited (installed d) k)"

fun put :: "'k \<Rightarrow> 'v \<Rightarrow> ('k \<times> 'v) list \<Rightarrow> ('k \<times> 'v) list" where
  "put k v [] = [(k, v)]"
| "put k v (p # ps) = (if fst p = k then (k, v) # ps else p # put k v ps)"

text \<open>
  \<open>data[key] = f\<close>.  The name \<open>__proto__\<close> is an accessor of \<open>Object.prototype\<close>: assigning
  an array to it replaces the prototype of the object, assigning a string does nothing.
\<close>

definition assign :: "data_object \<Rightarrow> string \<Rightarrow> field_value \<Rightarrow> data_object" where
  "assign d k f =
     (if k = ''__proto__'' then (if is_array f then d\<lparr>installed := Some f\<rparr> else d)
      else d\<lparr>own := put k f (own d)\<rparr>)"

text \<open>\<open>Array.isArray(existing) ? [...existing, value] : [existing, value]\<close>.\<close>

definition aggregate :: "field_value \<Rightarrow> string \<Rightarrow> field_value" where
  "aggregate existing v =
     (case existing of
        Single s \<Rightarrow> Many [s, v]
      | Many vs \<Rightarrow> Many (vs @ [v])
      | Headed h vs \<Rightarrow> Headed h (vs @ [v])
      | Bare h \<Rightarrow> Headed h [v])"

section \<open>MediaInfo parser (src/lib/utils/mediainfo-parser.ts)\<close>

text \<open>The three replacements of the normalisation, each over all matches from the left.\<close>

fun unescape_newlines :: "string \<Rightarrow> string" where
  "unescape_newlines (a # b # cs) =
     (if a = CHR 0x5C \<and> b = CHR ''n'' then CHR 0x0A # unescape_newlines cs
      else a # unescape_newlines (b # cs))"
| "unescape_newlines cs = cs"

fun unify_newlines :: "string \<Rightarrow> string" where
  "unify_newlines (a # b # cs) =
     (if a = CHR 0x0D then (if b = CHR 0x0A then CHR 0x0A # unify_newlines cs
                            else CHR 0x0A # unify_newlines (b # cs))
      else a # unify_newlines (b # cs))"
| "unify_newlines [a] = (if a = CHR 0x0D then [CHR 0x0A] else [a])"
| "unify_newlines [] = []"

fun replace_nbsp :: "string \<Rightarrow> string" where
  "replace_nbsp (a # b # cs) =
     (if a = CHR 0xC2 \<and> b = CHR 0xA0 then CHR 0x20 # replace_nbsp cs
      else a # replace_nbsp (b # cs))"
| "replace_nbsp cs = cs"

definition normalized :: "string \<Rightarrow> string" where
  "normalized text =
     trim (replace_nbsp (unify_newlines
       (if str_includes text [CHR 0x5C, CHR ''n''] then unescape_newlines text else text)))"

text \<open>
  \<open>split(/\n\s*\n+/)\<close>.  At a line feed, the expression matches when the run of white
  space after it holds another line feed, and the match ends after the last line feed of
  that run.
\<close>

definition separator_length :: "string \<Rightarrow> nat option" where
  "separator_length s =
     (case s of
        [] \<Rightarrow> None
      | c # cs \<Rightarrow>
          if c \<noteq> CHR 0x0A then None
          else (let run = takeWhile is_space cs
                in if CHR 0x0A \<in> set run
                   then Some (1 + length (dropWhile (\<lambda>d. d \<noteq> CHR 0x0A) (rev run)))
                   else None))"

lemma separator_length_pos: "separator_length s = Some n \<Longrightarrow> 0 < n"
  by (auto simp: separator_length_def Let_def split: list.splits if_splits)

function split_blocks_from :: "string \<Rightarrow> string \<Rightarrow> string list" where
  "split_blocks_from cur [] = [cur]"
| "split_blocks_from cur (c # cs) =
     (case separator_length (c # cs) of
        Some n \<Rightarrow> cur # split_blocks_from [] (drop n (c # cs))
      | None \<Rightarrow> split_blocks_from (cur @ [c]) cs)"
  by pat_completeness auto
termination
  by (relation "measure (\<lambda>(cur, s). length s)") (auto dest: separator_length_pos)

definition split_blocks :: "string \<Rightarrow> string list" where
  "split_blocks s = split_blocks_from [] s"

text \<open>\<open>block.split('\n').map((l) => l.trim()).filter(Boolean)\<close>.\<close>

definition block_lines :: "string \<Rightarrow> string list" where
  "block_lines block = filter (\<lambda>l. l \<noteq> []) (map trim (split_on (CHR 0x0A) block))"

text \<open>
  \<open>header.match(/^(.+?)\s*(?:#(\d+))?$/)\<close>.  \<open>header_tail\<close> is the part after the first
  group: white space, then the end, or \<open>#\<close> and digits and the end.  The first group is
  the shortest non-empty prefix, free of line terminators, after which the tail matches.
  The index \<open>Number(match[2])\<close> is a natural number here (as in JavaScript below \<open>2^53\<close>).
\<close>

definition header_tail :: "string \<Rightarrow> string option option" where
  "header_tail r =
     (let t = dropWhile is_space r
      in if t = [] then Some None
         else if hd t = CHR ''#'' \<and> tl t \<noteq> [] \<and> list_all is_digit (tl t) then Some (Some (tl t))
         else None)"

fun header_match :: "string \<Rightarrow> string \<Rightarrow> (string \<times> string option) option" where
  "header_match g [] = (if g \<noteq> [] then Some (g, None) else None)"
| "header_match g (c # cs) =
     (case (if g \<noteq> [] then header_tail (c # cs) else None) of
        Some digits \<Rightarrow> Some (g, digits)
      | None \<Rightarrow>
          if c = CHR 0x0A \<or> c = CHR 0x0D then None else header_match (g @ [c]) cs)"

record MediaInfoSection =
  sec_header :: string
  sec_base :: string
  sec_index :: "nat option"
  sec_data :: data_object

definition base_of :: "string \<Rightarrow> string" where
  "base_of header = (case header_match [] header of Some (g, digits) \<Rightarrow> trim g | None \<Rightarrow> header)"

definition index_of_header :: "string \<Rightarrow> nat option" where
  "index_of_header header =
     (case header_match [] header of
        Some (g, Some digits) \<Rightarrow> Some (parse_digits digits)
      | _ \<Rightarrow> None)"

text \<open>The body of the loop over the lines after the header (lines 91 to 105).\<close>

definition add_line :: "data_object \<Rightarrow> string \<Rightarrow> data_object" where
  "add_line d line =
     (if \<not> str_includes line '':'' then d
      else (case split_on CHR '':'' line of
              [] \<Rightarrow> d
            | rawKey # rest \<Rightarrow>
                (let key = trim rawKey; v = trim (join '':'' rest)
                 in if key = [] then d
                    else (case lookup d key of
                            Some existing \<Rightarrow> assign d key (aggregate existing v)
                          | None \<Rightarrow> assign d key (Single v)))))"

definition section_of :: "string list \<Rightarrow> MediaInfoSection" where
  "section_of lines =
     \<lparr>sec_header = hd lines, sec_base = base_of (hd lines), sec_index = index_of_header (hd lines),
      sec_data = foldl add_line empty_data (tl lines)\<rparr>"

text \<open>
  The result maps a base name to its sections, own properties in the order they were
  stored (the order in which JavaScript lists them, but for names that are array indices,
  which it lists first).  \<open>(result[base] ??= []).push(section)\<close>: when \<open>result\<close> has no own property
  \<open>base\<close> and \<open>base\<close> names a member of \<open>Object.prototype\<close>, the read finds that member, which
  is not nullish and has no method \<open>push\<close>: the call raises a \<open>TypeError\<close>.
\<close>

type_synonym MediaInfoParsed = "(string \<times> MediaInfoSection list) list"

definition push_section :: "MediaInfoParsed \<Rightarrow> MediaInfoSection \<Rightarrow> js_error + MediaInfoParsed" where
  "push_section result s =
     (case map_of result (sec_base s) of
        Some secs \<Rightarrow> Inr (put (sec_base s) (secs @ [s]) result)
      | None \<Rightarrow>
          if sec_base s \<in> set Object_prototype_names then Inl TypeError
          else Inr (put (sec_base s) [s] result))"

fun parse_blocks :: "MediaInfoParsed \<Rightarrow> string list \<Rightarrow> js_error + MediaInfoParsed" where
  "parse_blocks result [] = Inr result"
| "parse_blocks result (block # blocks) =
     (let lines = block_lines block
      in if lines = [] then parse_blocks result blocks
         else (case push_section result (section_of lines) of
                 Inl e \<Rightarrow> Inl e
               | Inr result' \<Rightarrow> parse_blocks result' blocks))"

definition parseMediaInfo :: "string \<Rightarrow> js_error + MediaInfoParsed" where
  "parseMediaInfo text =
     (if text = [] then Inr [] else parse_blocks [] (split_blocks (normalized text)))"


section \<open>MediaInfo structurer and summary (mediainfo-parser.ts, lines 118 to 381)\<close>

text \<open>
  \<open>getFirst\<close>: \<open>undefined\<close> and the empty string are false and give \<open>undefined\<close>; an array
  gives its first element.  \<open>toStructured\<close> reads a fixed set of names, none of which is
  inherited from a prototype, so under these names a section of \<open>parseMediaInfo\<close> holds
  \<open>Single\<close> or \<open>Many\<close> only (lemma \<open>structured_names_typed\<close>); for the other two shapes,
  outside the declared type of the parameter, \<open>getFirst\<close> is given the value \<open>None\<close>.
\<close>

definition getFirst :: "field_value option \<Rightarrow> string option" where
  "getFirst v =
     (case v of
        None \<Rightarrow> None
      | Some (Single s) \<Rightarrow> if s = [] then None else Some s
      | Some (Many vs) \<Rightarrow> (case vs of [] \<Rightarrow> None | s # ss \<Rightarrow> Some s)
      | Some (Headed h vs) \<Rightarrow> None
      | Some (Bare h) \<Rightarrow> None)"

record general_info =
  g_file_name :: "string option"
  g_format :: "string option"
  g_duration :: "string option"
  g_file_size :: "string option"
  g_bit_rate :: "string option"

record video_info =
  v_format :: "string option"
  v_format_profile :: "string option"
  v_codec :: "string option"
  v_width :: "string option"
  v_height :: "string option"
  v_bit_depth :: "string option"
  v_hdr_format :: "string option"
  v_transfer_characteristics :: "string option"
  v_frame_rate :: "string option"
  v_bit_rate :: "string option"

record audio_info =
  a_format :: "string option"
  a_format_profile :: "string option"
  a_channels :: "string option"
  a_bit_rate :: "string option"
  a_title :: "string option"
  a_language :: "string option"
  a_commercial_name :: "string option"

record text_info =
  t_format :: "string option"
  t_title :: "string option"
  t_language :: "string option"

record MediaInfoStructured =
  s_general :: "general_info option"
  s_video :: "video_info list option"
  s_audio :: "audio_info list option"
  s_text :: "text_info list option"

text \<open>\<open>section.data[name]\<close> for a name that no prototype holds: the own property.\<close>

definition field_of :: "MediaInfoSection \<Rightarrow> string \<Rightarrow> field_value option" where
  "field_of s name = lookup (sec_data s) name"

definition general_of :: "MediaInfoSection \<Rightarrow> general_info" where
  "general_of s =
     \<lparr>g_file_name = getFirst (field_of s ''Complete name''),
      g_format = getFirst (field_of s ''Format''),
      g_duration = getFirst (field_of s ''Duration''),
      g_file_size = getFirst (field_of s ''File size''),
      g_bit_rate = getFirst (field_of s ''Overall bit rate'')\<rparr>"

definition video_of :: "MediaInfoSection \<Rightarrow> video_info" where
  "video_of s =
     \<lparr>v_format = getFirst (field_of s ''Format''),
      v_format_profile = getFirst (field_of s ''Format profile''),
      v_codec = getFirst (field_of s ''Codec ID''),
      v_width = getFirst (field_of s ''Width''),
      v_height = getFirst (field_of s ''Height''),
      v_bit_depth = getFirst (field_of s ''Bit depth''),
      v_hdr_format = getFirst (field_of s ''HDR format''),
      v_transfer_characteristics = getFirst (field_of s ''Transfer characteristics''),
      v_frame_rate = getFirst (field_of s ''Frame rate''),
      v_bit_rate = getFirst (field_of s ''Bit rate'')\<rparr>"

definition audio_of :: "MediaInfoSection \<Rightarrow> audio_info" where
  "audio_of s =
     \<lparr>a_format = getFirst (field_of s ''Format''),
      a_format_profile = getFirst (field_of s ''Format profile''),
      a_channels = getFirst (field_of s ''Channel(s)''),
      a_bit_rate = getFirst (field_of s ''Bit rate''),
      a_title = getFirst (field_of s ''Title''),
      a_language = getFirst (field_of s ''Language''),
      a_commercial_name = getFirst (field_of s ''Commercial name'')\<rparr>"

definition text_of :: "MediaInfoSection \<Rightarrow> text_info" where
  "text_of s =
     \<lparr>t_format = getFirst (field_of s ''Format''),
      t_title = getFirst (field_of s ''Title''),
      t_language = getFirst (field_of s ''Language'')\<rparr>"

text \<open>
  \<open>parsed[name] ?? []\<close> for the names \<open>Video\<close>, \<open>Audio\<close> and \<open>Text\<close>, which no prototype
  holds; \<open>Object.keys(parsed).filter((k) => k.startsWith(p)).flatMap((k) => parsed[k])\<close>.
  \<open>Object.keys\<close> lists array indices first and then the other names in the order they
  were stored; no array index starts with \<open>Audio #\<close> or \<open>Text #\<close>, so the filtered names come
  in the order they were stored.
\<close>

definition sections_named :: "MediaInfoParsed \<Rightarrow> string \<Rightarrow> MediaInfoSection list" where
  "sections_named parsed name = (case map_of parsed name of Some secs \<Rightarrow> secs | None \<Rightarrow> [])"

definition sections_prefixed :: "MediaInfoParsed \<Rightarrow> string \<Rightarrow> MediaInfoSection list" where
  "sections_prefixed parsed p =
     concat (map (\<lambda>k. sections_named parsed k) (filter (\<lambda>k. prefix p k) (map fst parsed)))"

definition toStructured :: "MediaInfoParsed \<Rightarrow> MediaInfoStructured" where
  "toStructured parsed =
     (let general = (case map_of parsed ''General'' of
                       Some (s # ss) \<Rightarrow> Some s
                     | _ \<Rightarrow> None);
          videos = sections_named parsed ''Video'';
          audios = sections_named parsed ''Audio'' @ sections_prefixed parsed ''Audio #'';
          texts = sections_named parsed ''Text'' @ sections_prefixed parsed ''Text #''
      in \<lparr>s_general = map_option general_of general,
          s_video = (if videos \<noteq> [] then Some (map video_of videos) else None),
          s_audio = (if audios \<noteq> [] then Some (map audio_of audios) else None),
          s_text = (if texts \<noteq> [] then Some (map text_of texts) else None)\<rparr>)"

text \<open>
  Numbers read by \<open>parseInt\<close> from a text of digits are natural numbers here, and their
  text is their decimal numeral (as in JavaScript below \<open>2^53\<close>).  \<open>digits_only\<close> is
  \<open>s.replace(/[^\d]/g, '')\<close>; \<open>parseInt\<close> of no digits is \<open>NaN\<close>, here \<open>None\<close>.
\<close>

definition digits_only :: "string \<Rightarrow> string" where
  "digits_only s = filter is_digit s"

definition parseInt :: "string \<Rightarrow> nat option" where
  "parseInt ds = (if ds = [] then None else Some (parse_digits ds))"

definition parseChannels :: "string option \<Rightarrow> string" where
  "parseChannels channelStr =
     (case channelStr of
        None \<Rightarrow> []
      | Some c \<Rightarrow>
          if c = [] then []
          else (case parseInt (digits_only c) of
                  None \<Rightarrow> c
                | Some num \<Rightarrow>
                    if num = 1 then ''1.0''
                    else if num = 2 then ''2.0''
                    else if num = 6 then ''5.1''
                    else if num = 7 then ''6.1''
                    else if num = 8 then ''7.1''
                    else show_nat num @ ''ch''))"

definition getResolution :: "string option \<Rightarrow> string option \<Rightarrow> string" where
  "getResolution width height =
     (case height of
        None \<Rightarrow> []
      | Some hs \<Rightarrow>
          if hs = [] then []
          else (case parseInt (digits_only hs) of
                  None \<Rightarrow> []
                | Some h \<Rightarrow>
                    if h \<ge> 2160 then ''4K''
                    else if h \<ge> 1080 then ''1080p''
                    else if h \<ge> 720 then ''720p''
                    else if h \<ge> 576 then ''576p''
                    else if h \<ge> 480 then ''480p''
                    else show_nat h @ ''p''))"

text \<open>A string is true when it is present and not empty.\<close>

definition truthy :: "string option \<Rightarrow> bool" where
  "truthy v = (case v of None \<Rightarrow> False | Some s \<Rightarrow> s \<noteq> [])"

definition getHDRInfo :: "video_info list option \<Rightarrow> string" where
  "getHDRInfo vs =
     (case vs of
        None \<Rightarrow> []
      | Some [] \<Rightarrow> []
      | Some (v # rest) \<Rightarrow>
          if truthy (v_hdr_format v) then
            (let h = toLowerCase (the (v_hdr_format v))
             in if str_includes h ''dolby vision'' then ''DV''
                else if str_includes h ''hdr10+'' then ''HDR10+''
                else if str_includes h ''hdr10'' then ''HDR10''
                else if str_includes h ''hlg'' then ''HLG''
                else ''HDR'')
          else
            (let transfer = (case v_transfer_characteristics v of
                               Some t \<Rightarrow> toLowerCase t | None \<Rightarrow> [])
             in if str_includes transfer ''pq'' \<or> str_includes transfer ''smpte st 2084'' then ''HDR10''
                else if str_includes transfer ''hlg'' then ''HLG''
                else []))"

text \<open>A \<open>Set\<close> keeps the order of first insertion.\<close>

definition add_new :: "'a list \<Rightarrow> 'a \<Rightarrow> 'a list" where
  "add_new xs x = (if x \<in> set xs then xs else xs @ [x])"

definition getSubtitleLanguages :: "text_info list option \<Rightarrow> string list" where
  "getSubtitleLanguages texts =
     (case texts of
        None \<Rightarrow> []
      | Some ts \<Rightarrow>
          foldl (\<lambda>languages t.
                   if truthy (t_language t)
                   then add_new languages (trim (hd (split_on CHR ''('' (the (t_language t)))))
                   else languages) [] ts)"

text \<open>
  \<open>s.replace(pat, rep)\<close> for a pattern that is a string: the first occurrence only.
\<close>

definition replace_first :: "string \<Rightarrow> string \<Rightarrow> string \<Rightarrow> string" where
  "replace_first pat rep s =
     (case index_of pat s of
        None \<Rightarrow> s
      | Some i \<Rightarrow> take i s @ rep @ drop (i + length pat) s)"

text \<open>
  \<open>toUpperCase\<close> on this alphabet.  The sharp s becomes two letters.  The capitals of the
  micro sign and of y with diaeresis lie outside the alphabet; they are left as they are,
  which no comparison made here can tell from their capitals.
\<close>

definition upper_char :: "char \<Rightarrow> string" where
  "upper_char c =
     (let n = (of_char c :: nat)
      in if (97 \<le> n \<and> n \<le> 122) \<or> (224 \<le> n \<and> n \<le> 254 \<and> n \<noteq> 247) then [char_of (n - 32)]
         else if n = 223 then ''SS''
         else [c])"

definition toUpperCase :: "string \<Rightarrow> string" where
  "toUpperCase s = concat (map upper_char s)"

lemma upper_char_Char [simp, code]:
  "upper_char (Char b0 b1 b2 b3 b4 b5 b6 b7) =
     (if b6 \<and> b5 \<and>
         (if b7 then \<not> (b0 \<and> b1 \<and> b2 \<and> b3 \<and> b4) \<and> \<not> (b0 \<and> b1 \<and> b2 \<and> \<not> b3 \<and> b4)
          else (b0 \<or> b1 \<or> b2 \<or> b3 \<or> b4) \<and> \<not> (b4 \<and> b3 \<and> (b2 \<or> (b1 \<and> b0))))
      then [Char b0 b1 b2 b3 b4 False b6 b7]
      else if b0 \<and> b1 \<and> b2 \<and> b3 \<and> b4 \<and> \<not> b5 \<and> b6 \<and> b7 then ''SS''
      else [Char b0 b1 b2 b3 b4 b5 b6 b7])"
  by (cases b0; cases b1; cases b2; cases b3; cases b4; cases b5; cases b6; cases b7)
     (simp_all add: upper_char_def char_of_eq_iff take_bit_eq_mod)

definition audio_description :: "audio_info \<Rightarrow> string" where
  "audio_description a =
     (let commercial = map_option toLowerCase (a_commercial_name a);
          has = (\<lambda>w. case commercial of Some c \<Rightarrow> str_includes c w | None \<Rightarrow> False);
          audioDesc =
            (if has ''atmos'' then ''Atmos''
             else if has ''truehd'' then ''TrueHD''
             else if has ''dts'' then
               (if str_includes (the (a_commercial_name a)) ''HD'' then ''DTS-HD MA'' else ''DTS'')
             else if truthy (a_format a) then
               (let fmt = toUpperCase (the (a_format a))
                in if str_includes fmt ''E-AC-3'' \<or> str_includes fmt ''EAC3'' then ''DD+''
                   else if str_includes fmt ''AC-3'' \<or> fmt = ''AC3'' then ''DD''
                   else if str_includes fmt ''AAC'' then ''AAC''
                   else if str_includes fmt ''FLAC'' then ''FLAC''
                   else if str_includes fmt ''OPUS'' then ''Opus''
                   else if str_includes fmt ''TRUEHD'' then ''TrueHD''
                   else if str_includes fmt ''DTS'' then ''DTS''
                   else the (a_format a))
             else []);
          ch = parseChannels (a_channels a)
      in if ch \<noteq> [] \<and> audioDesc \<noteq> [] then audioDesc @ '' '' @ ch else audioDesc)"

definition video_part :: "video_info list \<Rightarrow> string list" where
  "video_part vs =
     (case vs of
        [] \<Rightarrow> []
      | v # rest \<Rightarrow>
          (let videoParts =
                 (if truthy (v_format v) then [the (v_format v)] else []) @
                 (if truthy (v_bit_depth v) \<and> \<not> str_includes (the (v_bit_depth v)) ''8''
                  then [replace_first '' bit'' ''-bit'' (replace_first '' bits'' ''-bit'' (the (v_bit_depth v)))]
                  else []) @
                 (let res = getResolution (v_width v) (v_height v) in if res \<noteq> [] then [res] else []) @
                 (let hdr = getHDRInfo (Some vs) in if hdr \<noteq> [] then [hdr] else [])
           in if videoParts \<noteq> [] then [join '' '' videoParts] else []))"

definition audio_part :: "audio_info list \<Rightarrow> string list" where
  "audio_part as =
     (let audioFormats =
            foldl (\<lambda>formats a.
                     let audioDesc = audio_description a
                     in if audioDesc \<noteq> [] \<and> audioDesc \<notin> set formats then formats @ [audioDesc]
                        else formats) [] as
      in if audioFormats \<noteq> [] then [join '' + '' (take 2 audioFormats)] else [])"

definition text_part :: "text_info list \<Rightarrow> string list" where
  "text_part ts =
     (if ts = [] then []
      else (let count = length ts;
                langs = getSubtitleLanguages (Some ts);
                subInfo = show_nat count @ '' Sub'' @ (if count \<noteq> 1 then ''s'' else [])
            in [subInfo @
                (if length langs > 0 \<and> length langs \<le> 4 then '' ('' @ join '', '' langs @ '')''
                 else if length langs > 4 then '' ('' @ join '', '' (take 3 langs) @ ''...)''
                 else [])]))"

definition generateSummary :: "MediaInfoStructured \<Rightarrow> string" where
  "generateSummary structured =
     (let parts =
            (case s_video structured of Some vs \<Rightarrow> video_part vs | None \<Rightarrow> []) @
            (case s_audio structured of Some as \<Rightarrow> audio_part as | None \<Rightarrow> []) @
            (case s_text structured of Some ts \<Rightarrow> text_part ts | None \<Rightarrow> [])
      in join '' | '' parts)"

record summarized =
  parsed_of :: MediaInfoParsed
  structured_of :: MediaInfoStructured
  summary_of :: string

definition parseAndSummarize :: "string \<Rightarrow> js_error + summarized" where
  "parseAndSummarize rawText =
     (case parseMediaInfo rawText of
        Inl e \<Rightarrow> Inl e
      | Inr parsed \<Rightarrow>
          (let structured = toStructured parsed
           in Inr \<lparr>parsed_of = parsed, structured_of = structured,
                   summary_of = generateSummary structured\<rparr>))"


section \<open>What the parser stores, apart from inherited names\<close>

text \<open>
  \<open>line_entry\<close> is the key and the value that a line contributes, if any; \<open>values_of k\<close>
  lists the values of the key \<open>k\<close> in the order of the lines.  A name is \<open>inheritable\<close>
  when an object can find it on a prototype: the member names of \<open>Object.prototype\<close> and,
  once an array has taken the place of the prototype, those of \<open>Array.prototype\<close>, \<open>length\<close>
  and the array indices.  \<open>stored\<close> is what the loop leaves under a key that is not
  inheritable.  \<open>sections\<close> are the sections of a report in document order, whether or
  not \<open>parseMediaInfo\<close> returns.
\<close>

definition line_entry :: "string \<Rightarrow> (string \<times> string) option" where
  "line_entry line =
     (if \<not> str_includes line '':'' then None
      else (case split_on CHR '':'' line of
              [] \<Rightarrow> None
            | rawKey # rest \<Rightarrow>
                if trim rawKey = [] then None else Some (trim rawKey, trim (join '':'' rest))))"

definition values_of :: "string \<Rightarrow> string list \<Rightarrow> string list" where
  "values_of k lines = map snd (filter (\<lambda>e. fst e = k) (List.map_filter line_entry lines))"

definition inheritable :: "string \<Rightarrow> bool" where
  "inheritable k =
     (k \<in> set Object_prototype_names \<or> k \<in> set Array_prototype_names \<or> k = ''length'' \<or>
      (k \<noteq> [] \<and> list_all is_digit k))"

fun stored :: "field_value option \<Rightarrow> string list \<Rightarrow> field_value option" where
  "stored cur [] = cur"
| "stored cur (v # vs) =
     stored (Some (case cur of Some existing \<Rightarrow> aggregate existing v | None \<Rightarrow> Single v)) vs"

lemma digit_char_is_digit: "d < 10 \<Longrightarrow> is_digit (digit_char d)"
proof -
  assume "d < 10"
  then have "d \<in> {0, 1, 2, 3, 4, 5, 6, 7, 8, 9}" by auto
  then show ?thesis by (auto simp: is_digit_def digit_char_def)
qed

lemma show_nat_digits: "show_nat n \<noteq> [] \<and> list_all is_digit (show_nat n)"
proof (induction n rule: show_nat.induct)
  case (1 n)
  show ?case
  proof (cases "n < 10")
    case True
    then show ?thesis by (subst show_nat.simps, subst (2) show_nat.simps) (simp add: digit_char_is_digit)
  next
    case False
    with "1.IH" have "show_nat (n div 10) \<noteq> [] \<and> list_all is_digit (show_nat (n div 10))" by simp
    moreover have "is_digit (digit_char (n mod 10))" by (simp add: digit_char_is_digit)
    ultimately show ?thesis using False
      by (subst show_nat.simps, subst (2) show_nat.simps) simp
  qed
qed

lemma index_of_single_mem: "index_of [k] xs = Some i \<Longrightarrow> k \<in> set xs"
proof (induction xs arbitrary: i)
  case Nil
  then show ?case by simp
next
  case (Cons x xs)
  then show ?case by (auto split: if_splits)
qed

lemma inherited_None: "\<not> inheritable k \<Longrightarrow> inherited proto k = None"
proof (cases proto)
  case None
  assume "\<not> inheritable k"
  with None show ?thesis by (simp add: inherited_def inheritable_def)
next
  case (Some arr)
  assume n: "\<not> inheritable k"
  have "index_of [k] (map show_nat [0..<length (elements arr)]) = None"
  proof (cases "index_of [k] (map show_nat [0..<length (elements arr)])")
    case None
    then show ?thesis .
  next
    case (Some i)
    then have "k \<in> set (map show_nat [0..<length (elements arr)])" by (rule index_of_single_mem)
    then obtain m where "k = show_nat m" by auto
    with show_nat_digits[of m] n show ?thesis by (simp add: inheritable_def)
  qed
  moreover from n have "k \<noteq> ''__proto__''" by (auto simp: inheritable_def Object_prototype_names_def)
  ultimately show ?thesis using n Some by (simp add: inherited_def inheritable_def)
qed

lemma map_of_put: "map_of (put k f l) k' = (if k' = k then Some f else map_of l k')"
  by (induction l) auto

lemma add_line_entry:
  "add_line d line =
     (case line_entry line of
        None \<Rightarrow> d
      | Some (k, v) \<Rightarrow>
          (case lookup d k of
             Some existing \<Rightarrow> assign d k (aggregate existing v)
           | None \<Rightarrow> assign d k (Single v)))"
  by (simp add: add_line_def line_entry_def Let_def split: list.splits)

lemma own_assign:
  "map_of (own (assign d k' f)) k =
     (if k' = k \<and> k \<noteq> ''__proto__'' then Some f else map_of (own d) k)"
  by (simp add: assign_def map_of_put)

lemma own_add_line:
  assumes "\<not> inheritable k"
  shows "map_of (own (add_line d line)) k =
           (case line_entry line of
              None \<Rightarrow> map_of (own d) k
            | Some (k', v) \<Rightarrow>
                if k' = k then Some (case map_of (own d) k of Some e \<Rightarrow> aggregate e v | None \<Rightarrow> Single v)
                else map_of (own d) k)"
proof (cases "line_entry line")
  case None
  then show ?thesis by (simp add: add_line_entry)
next
  case (Some e)
  obtain k' v where e: "e = (k', v)" by (cases e)
  from assms have np: "k \<noteq> ''__proto__''" by (auto simp: inheritable_def Object_prototype_names_def)
  show ?thesis
  proof (cases "k' = k")
    case True
    have "lookup d k = map_of (own d) k"
      using inherited_None[OF assms] by (simp add: lookup_def split: option.splits)
    with Some e True np show ?thesis
      by (simp add: add_line_entry own_assign split: option.splits)
  next
    case False
    with Some e show ?thesis
      by (simp add: add_line_entry own_assign split: option.splits)
  qed
qed

lemma values_of_Cons:
  "values_of k (line # lines) =
     (case line_entry line of
        Some (k', v) \<Rightarrow> if k' = k then v # values_of k lines else values_of k lines
      | None \<Rightarrow> values_of k lines)"
  by (simp add: values_of_def List.map_filter_simps split: option.splits)

lemma own_foldl_add_line:
  assumes "\<not> inheritable k"
  shows "map_of (own (foldl add_line d lines)) k = stored (map_of (own d) k) (values_of k lines)"
proof (induction lines arbitrary: d)
  case Nil
  show ?case by (simp add: values_of_def List.map_filter_simps)
next
  case (Cons line lines)
  show ?case
    using Cons.IH[of "add_line d line"] own_add_line[OF assms, of d line]
    by (simp add: values_of_Cons split: option.splits)
qed

lemma stored_Many: "stored (Some (Many us)) vs = Some (Many (us @ vs))"
  by (induction vs arbitrary: us) (simp_all add: aggregate_def)

lemma stored_None:
  "stored None vs = (case vs of [] \<Rightarrow> None | [v] \<Rightarrow> Some (Single v) | v # w # ws \<Rightarrow> Some (Many vs))"
proof (cases vs)
  case Nil
  then show ?thesis by simp
next
  case (Cons v ws)
  then show ?thesis by (cases ws) (simp_all add: aggregate_def stored_Many)
qed

lemma field_aggregation:
  assumes "\<not> inheritable k"
  shows "lookup (sec_data (section_of lines)) k =
           (case values_of k (tl lines) of
              [] \<Rightarrow> None
            | [v] \<Rightarrow> Some (Single v)
            | v # w # ws \<Rightarrow> Some (Many (v # w # ws)))"
proof -
  have "lookup (sec_data (section_of lines)) k = map_of (own (sec_data (section_of lines))) k"
    using inherited_None[OF assms] by (simp add: lookup_def split: option.splits)
  also have "\<dots> = stored None (values_of k (tl lines))"
    using own_foldl_add_line[OF assms, of empty_data "tl lines"]
    by (simp add: section_of_def empty_data_def)
  finally show ?thesis by (simp add: stored_None split: list.splits)
qed

subsection \<open>The names read by the structurer\<close>

definition structured_names :: "string list" where
  "structured_names =
     [''Complete name'', ''Format'', ''Duration'', ''File size'', ''Overall bit rate'',
      ''Format profile'', ''Codec ID'', ''Width'', ''Height'', ''Bit depth'', ''HDR format'',
      ''Transfer characteristics'', ''Frame rate'', ''Bit rate'', ''Channel(s)'', ''Title'',
      ''Language'', ''Commercial name'']"

lemma structured_names_not_inheritable: "list_all (\<lambda>k. \<not> inheritable k) structured_names"
  by code_simp

lemma structured_names_typed:
  assumes "name \<in> set structured_names"
  shows "field_of (section_of lines) name = None \<or>
         (\<exists>v. field_of (section_of lines) name = Some (Single v)) \<or>
         (\<exists>vs. field_of (section_of lines) name = Some (Many vs))"
proof -
  from assms structured_names_not_inheritable have "\<not> inheritable name"
    by (simp add: list_all_iff)
  from field_aggregation[OF this, of lines] show ?thesis
    by (simp add: field_of_def split: list.splits)
qed

subsection \<open>Grouping of sections\<close>

definition sections_of_blocks :: "string list \<Rightarrow> MediaInfoSection list" where
  "sections_of_blocks blocks = map section_of (filter (\<lambda>ls. ls \<noteq> []) (map block_lines blocks))"

definition sections :: "string \<Rightarrow> MediaInfoSection list" where
  "sections text = (if text = [] then [] else sections_of_blocks (split_blocks (normalized text)))"

definition add_section :: "MediaInfoParsed \<Rightarrow> MediaInfoSection \<Rightarrow> MediaInfoParsed" where
  "add_section result s = put (sec_base s) (sections_named result (sec_base s) @ [s]) result"

lemma push_section_ok:
  "sec_base s \<notin> set Object_prototype_names \<Longrightarrow> push_section result s = Inr (add_section result s)"
  by (simp add: push_section_def add_section_def sections_named_def split: option.splits)

lemma parse_blocks_sections:
  assumes "\<forall>s \<in> set (sections_of_blocks blocks). sec_base s \<notin> set Object_prototype_names"
  shows "parse_blocks result blocks = Inr (foldl add_section result (sections_of_blocks blocks))"
  using assms
proof (induction blocks arbitrary: result)
  case Nil
  show ?case by (simp add: sections_of_blocks_def)
next
  case (Cons block blocks)
  show ?case
  proof (cases "block_lines block = []")
    case True
    with Cons show ?thesis by (simp add: sections_of_blocks_def)
  next
    case False
    with Cons.prems have b: "sec_base (section_of (block_lines block)) \<notin> set Object_prototype_names"
      and r: "\<forall>s \<in> set (sections_of_blocks blocks). sec_base s \<notin> set Object_prototype_names"
      by (simp_all add: sections_of_blocks_def)
    from Cons.IH[OF r] push_section_ok[OF b] False show ?thesis
      by (simp add: sections_of_blocks_def)
  qed
qed

lemma sections_named_add:
  "sections_named (add_section r s) b =
     sections_named r b @ (if sec_base s = b then [s] else [])"
  by (simp add: add_section_def sections_named_def map_of_put split: option.splits)

lemma sections_named_foldl:
  "sections_named (foldl add_section r secs) b =
     sections_named r b @ filter (\<lambda>s. sec_base s = b) secs"
  by (induction secs arbitrary: r) (simp_all add: sections_named_add)

lemma keys_put: "fst ` set (put k v l) = insert k (fst ` set l)"
  by (induction l) auto

lemma keys_add_section:
  "fst ` set (add_section r s) = insert (sec_base s) (fst ` set r)"
  by (simp only: add_section_def keys_put)

lemma keys_foldl:
  "fst ` set (foldl add_section r secs) = fst ` set r \<union> sec_base ` set secs"
proof (induction secs arbitrary: r)
  case Nil
  show ?case by simp
next
  case (Cons s secs)
  have "fst ` set (foldl add_section r (s # secs)) =
          fst ` set (add_section r s) \<union> sec_base ` set secs"
    using Cons.IH[of "add_section r s"] by simp
  then show ?case by (simp only: keys_add_section) auto
qed

lemma sections_prefixed_none:
  "\<forall>k \<in> set (map fst parsed). \<not> prefix p k \<Longrightarrow> sections_prefixed parsed p = []"
  by (simp add: sections_prefixed_def filter_False)

lemma section_of_header:
  "sec_base (section_of lines) = base_of (sec_header (section_of lines)) \<and>
   sec_index (section_of lines) = index_of_header (sec_header (section_of lines))"
  by (simp add: section_of_def)

lemma sections_header:
  assumes "s \<in> set (sections text)"
  shows "sec_base s = base_of (sec_header s) \<and> sec_index s = index_of_header (sec_header s)"
  using assms section_of_header
  by (auto simp: sections_def sections_of_blocks_def split: if_splits)

lemma audio_headers:
  "base_of ''Audio'' = ''Audio''" "index_of_header ''Audio'' = None"
  "base_of ''Audio #2'' = ''Audio''" "index_of_header ''Audio #2'' = Some 2"
  by code_simp+

lemma audio_sections_grouped:
  assumes "\<forall>s \<in> set (sections text). sec_base s \<notin> set Object_prototype_names"
    and "\<forall>s \<in> set (sections text). \<not> prefix ''Audio #'' (sec_base s)"
    and "filter (\<lambda>s. sec_base s = ''Audio'') (sections text) = [a, b]"
  shows "\<exists>parsed. parseMediaInfo text = Inr parsed \<and>
           s_audio (toStructured parsed) = Some [audio_of a, audio_of b]"
proof -
  from assms(3) have ne: "text \<noteq> []" by (auto simp: sections_def split: if_splits)
  let ?secs = "sections_of_blocks (split_blocks (normalized text))"
  have secs: "sections text = ?secs" using ne by (simp add: sections_def)
  let ?parsed = "foldl add_section [] ?secs"
  have p: "parseMediaInfo text = Inr ?parsed"
    using parse_blocks_sections[of "split_blocks (normalized text)" "[]"] assms(1) ne
    by (simp add: parseMediaInfo_def secs)
  have "sections_named [] ''Audio'' = []" by (simp add: sections_named_def)
  then have n: "sections_named ?parsed ''Audio'' = [a, b]"
    using assms(3) by (simp add: sections_named_foldl secs)
  have "fst ` set ?parsed = sec_base ` set ?secs" by (simp add: keys_foldl)
  then have "\<forall>k \<in> set (map fst ?parsed). \<not> prefix ''Audio #'' k"
    using assms(2) by (simp add: secs)
  then have x: "sections_prefixed ?parsed ''Audio #'' = []" by (rule sections_prefixed_none)
  have "s_audio (toStructured ?parsed) = Some [audio_of a, audio_of b]"
    by (simp add: toStructured_def Let_def n x)
  with p show ?thesis by blast
qed

lemma audio_sections_indexed:
  assumes "a \<in> set (sections text)" and "sec_header a = ''Audio''"
    and "b \<in> set (sections text)" and "sec_header b = ''Audio #2''"
  shows "sec_base a = ''Audio'' \<and> sec_index a = None \<and> sec_base b = ''Audio'' \<and> sec_index b = Some 2"
  using sections_header[OF assms(1)] sections_header[OF assms(3)] assms(2,4)
  by (simp add: audio_headers)


section \<open>Properties of the MediaInfo parser, structurer and summary\<close>

definition report_with_toString_field :: string where
  "report_with_toString_field = ''General'' @ [CHR 0x0A] @ ''toString : x''"

definition report_with_toString_block :: string where
  "report_with_toString_block =
     ''Audio'' @ [CHR 0x0A, CHR 0x0A] @ ''Audio #2'' @ [CHR 0x0A, CHR 0x0A] @ ''toString''"

definition pq_video :: video_info where
  "pq_video =
     \<lparr>v_format = Some ''HEVC'', v_format_profile = None, v_codec = None, v_width = None,
      v_height = Some ''2160'', v_bit_depth = None, v_hdr_format = None,
      v_transfer_characteristics = Some ''SMPTE ST 2084'', v_frame_rate = None, v_bit_rate = None\<rparr>"

text \<open>
  C5 at the report \<open>General\<close>, line feed, \<open>toString : x\<close>.  The key \<open>toString\<close> occurs once
  in the section, and its value is not stored as a single value: \<open>'toString' in data\<close> is
  true before any line has been read, because \<open>data\<close> inherits \<open>Object.prototype.toString\<close>,
  so the first occurrence takes the branch of a repeated key and stores the array of that
  built-in function and \<open>x\<close>.
\<close>

theorem parseMediaInfo_inherited_key:
  "parseMediaInfo report_with_toString_field =
     Inr [(''General'',
           [\<lparr>sec_header = ''General'', sec_base = ''General'', sec_index = None,
             sec_data = \<lparr>own = [(''toString'', Headed (Builtin ''toString'') [''x''])],
                         installed = None\<rparr>\<rparr>])]"
  by code_simp

text \<open>
  C6 at a report with a block headed \<open>Audio\<close>, a block headed \<open>Audio #2\<close> and a block headed
  \<open>toString\<close>: parsing raises a \<open>TypeError\<close> at the third block, where \<open>result[base]\<close> finds
  \<open>Object.prototype.toString\<close>, which has no method \<open>push\<close>.
\<close>

theorem parseMediaInfo_inherited_header:
  "parseMediaInfo report_with_toString_block = Inl TypeError"
  by code_simp

text \<open>
  C7.  The classification reads the first video stream only.  When that stream has a
  non-empty \<open>hdr_format\<close>, its lower-cased label is matched against the keywords in the
  order dolby vision, hdr10+, hdr10, hlg, and a label with none of them is \<open>HDR\<close>.  When
  \<open>hdr_format\<close> is absent (or empty), the lower-cased transfer characteristics decide:
  \<open>pq\<close> or \<open>smpte st 2084\<close> is \<open>HDR10\<close>, else \<open>hlg\<close> is \<open>HLG\<close>, else there is no marker.
\<close>

theorem getHDRInfo_classification:
  "getHDRInfo (Some (v # rest)) = getHDRInfo (Some [v]) \<and>
   (v_hdr_format v = Some h \<and> h \<noteq> [] \<longrightarrow>
      getHDRInfo (Some (v # rest)) =
        (if str_includes (toLowerCase h) ''dolby vision'' then ''DV''
         else if str_includes (toLowerCase h) ''hdr10+'' then ''HDR10+''
         else if str_includes (toLowerCase h) ''hdr10'' then ''HDR10''
         else if str_includes (toLowerCase h) ''hlg'' then ''HLG''
         else ''HDR'')) \<and>
   ((v_hdr_format v = None \<or> v_hdr_format v = Some []) \<and> v_transfer_characteristics v = Some t \<longrightarrow>
      getHDRInfo (Some (v # rest)) =
        (if str_includes (toLowerCase t) ''pq'' \<or> str_includes (toLowerCase t) ''smpte st 2084''
         then ''HDR10''
         else if str_includes (toLowerCase t) ''hlg'' then ''HLG''
         else [])) \<and>
   ((v_hdr_format v = None \<or> v_hdr_format v = Some []) \<and> v_transfer_characteristics v = None \<longrightarrow>
      getHDRInfo (Some (v # rest)) = [])"
proof (intro conjI impI)
  show "getHDRInfo (Some (v # rest)) = getHDRInfo (Some [v])"
    by (simp add: getHDRInfo_def)
next
  assume "v_hdr_format v = Some h \<and> h \<noteq> []"
  then show "getHDRInfo (Some (v # rest)) =
        (if str_includes (toLowerCase h) ''dolby vision'' then ''DV''
         else if str_includes (toLowerCase h) ''hdr10+'' then ''HDR10+''
         else if str_includes (toLowerCase h) ''hdr10'' then ''HDR10''
         else if str_includes (toLowerCase h) ''hlg'' then ''HLG''
         else ''HDR'')"
    by (simp add: getHDRInfo_def truthy_def Let_def)
next
  assume a: "(v_hdr_format v = None \<or> v_hdr_format v = Some []) \<and> v_transfer_characteristics v = Some t"
  then have "\<not> truthy (v_hdr_format v)" by (auto simp: truthy_def)
  with a show "getHDRInfo (Some (v # rest)) =
        (if str_includes (toLowerCase t) ''pq'' \<or> str_includes (toLowerCase t) ''smpte st 2084''
         then ''HDR10''
         else if str_includes (toLowerCase t) ''hlg'' then ''HLG''
         else [])"
    by (simp add: getHDRInfo_def Let_def)
next
  assume a: "(v_hdr_format v = None \<or> v_hdr_format v = Some []) \<and> v_transfer_characteristics v = None"
  then have "\<not> truthy (v_hdr_format v)" by (auto simp: truthy_def)
  moreover have "\<not> str_includes [] ''pq''" "\<not> str_includes [] ''smpte st 2084''" "\<not> str_includes [] ''hlg''"
    by (simp_all add: str_includes_def)
  ultimately show "getHDRInfo (Some (v # rest)) = []"
    using a by (simp add: getHDRInfo_def Let_def)
qed

text \<open>
  A stream with no \<open>hdr_format\<close> and the transfer characteristics \<open>SMPTE ST 2084\<close> is
  classified \<open>HDR10\<close>, and the summary of a record with that stream carries the marker.
\<close>

theorem getHDRInfo_classification_witness:
  "v_hdr_format pq_video = None \<and> v_transfer_characteristics pq_video = Some ''SMPTE ST 2084'' \<and>
   getHDRInfo (Some [pq_video]) = ''HDR10'' \<and>
   generateSummary \<lparr>s_general = None, s_video = Some [pq_video], s_audio = None, s_text = None\<rparr> =
     ''HEVC 4K HDR10''"
proof -
  have a: "v_hdr_format pq_video = None" "v_transfer_characteristics pq_video = Some ''SMPTE ST 2084''"
    by (simp_all add: pq_video_def)
  have l: "toLowerCase ''SMPTE ST 2084'' = ''smpte st 2084''" by code_simp
  have i: "str_includes ''smpte st 2084'' ''smpte st 2084''" by code_simp
  have h: "getHDRInfo (Some [pq_video]) = ''HDR10''"
    using getHDRInfo_classification[of pq_video "[]" "[]" "''SMPTE ST 2084''"] a l i by simp
  have s: "generateSummary \<lparr>s_general = None, s_video = Some [pq_video], s_audio = None, s_text = None\<rparr> =
     ''HEVC 4K HDR10''"
    by code_simp
  from a h s show ?thesis by simp
qed

text \<open>
  C10.  On the empty string, \<open>parseMediaInfo\<close> returns the empty mapping; the structure of
  the empty mapping has all four fields null; the summary of that structure is the empty
  string.  The three steps in a row, \<open>parseAndSummarize\<close>, return these three results.
\<close>

theorem empty_report_degrades:
  "parseMediaInfo [] = Inr [] \<and>
   toStructured [] = \<lparr>s_general = None, s_video = None, s_audio = None, s_text = None\<rparr> \<and>
   generateSummary \<lparr>s_general = None, s_video = None, s_audio = None, s_text = None\<rparr> = [] \<and>
   parseAndSummarize [] =
     Inr \<lparr>parsed_of = [],
          structured_of = \<lparr>s_general = None, s_video = None, s_audio = None, s_text = None\<rparr>,
          summary_of = []\<rparr>"
  by (simp add: parseMediaInfo_def toStructured_def generateSummary_def parseAndSummarize_def
        sections_named_def sections_prefixed_def)


section \<open>Language flags (src/lib/utils/language-flags.ts)\<close>

text \<open>
  The table \<open>languageToCountry\<close>, its own properties in the order of the source.  It is an
  object made by a literal, so a read under a member name of \<open>Object.prototype\<close> finds that
  member.
\<close>

definition languageToCountry :: "(string \<times> string) list" where
  "languageToCountry =
     [(''afrikaans'', ''ZA''), (''af'', ''ZA''), (''albanian'', ''AL''), (''sq'', ''AL''),
      (''amharic'', ''ET''), (''am'', ''ET''), (''arabic'', ''SA''), (''ar'', ''SA''),
      (''armenian'', ''AM''), (''hy'', ''AM''), (''azerbaijani'', ''AZ''), (''az'', ''AZ''),
      (''basque'', ''ES''), (''eu'', ''ES''), (''belarusian'', ''BY''), (''be'', ''BY''),
      (''bengali'', ''BD''), (''bn'', ''BD''), (''bosnian'', ''BA''), (''bs'', ''BA''),
      (''bulgarian'', ''BG''), (''bg'', ''BG''), (''burmese'', ''MM''), (''my'', ''MM''),
      (''cambodian'', ''KH''), (''km'', ''KH''), (''catalan'', ''ES''), (''ca'', ''ES''),
      (''cebuano'', ''PH''), (''chinese'', ''CN''), (''zh'', ''CN''),
      (''chinese (simplified)'', ''CN''), (''chinese (traditional)'', ''CN''),
      (''cantonese'', ''HK''), (''croatian'', ''HR''), (''hr'', ''HR''), (''czech'', ''CZ''),
      (''cs'', ''CZ''), (''danish'', ''DK''), (''da'', ''DK''), (''dutch'', ''NL''),
      (''nl'', ''NL''), (''english'', ''US''), (''en'', ''US''), (''esperanto'', ''PL''),
      (''eo'', ''PL''), (''estonian'', ''EE''), (''et'', ''EE''), (''filipino'', ''PH''),
      (''fil'', ''PH''), (''finnish'', ''FI''), (''fi'', ''FI''), (''french'', ''FR''),
      (''fr'', ''FR''), (''galician'', ''ES''), (''gl'', ''ES''), (''georgian'', ''GE''),
      (''ka'', ''GE''), (''german'', ''DE''), (''de'', ''DE''), (''greek'', ''GR''),
      (''el'', ''GR''), (''gujarati'', ''IN''), (''gu'', ''IN''), (''haitian creole'', ''HT''),
      (''ht'', ''HT''), (''hebrew'', ''IL''), (''he'', ''IL''), (''hindi'', ''IN''),
      (''hi'', ''IN''), (''hungarian'', ''HU''), (''hu'', ''HU''), (''icelandic'', ''IS''),
      (''is'', ''IS''), (''indonesian'', ''ID''), (''id'', ''ID''), (''irish'', ''IE''),
      (''ga'', ''IE''), (''italian'', ''IT''), (''it'', ''IT''), (''japanese'', ''JP''),
      (''ja'', ''JP''), (''javanese'', ''ID''), (''jv'', ''ID''), (''kannada'', ''IN''),
      (''kn'', ''IN''), (''kazakh'', ''KZ''), (''kk'', ''KZ''), (''khmer'', ''KH''),
      (''korean'', ''KR''), (''ko'', ''KR''), (''kurdish'', ''TR''), (''ku'', ''TR''),
      (''kyrgyz'', ''KG''), (''ky'', ''KG''), (''lao'', ''LA''), (''lo'', ''LA''),
      (''latin'', ''VA''), (''la'', ''VA''), (''latvian'', ''LV''), (''lv'', ''LV''),
      (''lithuanian'', ''LT''), (''lt'', ''LT''), (''luxembourgish'', ''LU''),
      (''lb'', ''LU''), (''macedonian'', ''MK''), (''mk'', ''MK''), (''malay'', ''MY''),
      (''ms'', ''MY''), (''malayalam'', ''IN''), (''ml'', ''IN''), (''maltese'', ''MT''),
      (''mt'', ''MT''), (''maori'', ''NZ''), (''mi'', ''NZ''), (''marathi'', ''IN''),
      (''mr'', ''IN''), (''mongolian'', ''MN''), (''mn'', ''MN''), (''nepali'', ''NP''),
      (''ne'', ''NP''), (''norwegian'', ''NO''), (''no'', ''NO''), (''pashto'', ''AF''),
      (''ps'', ''AF''), (''persian'', ''IR''), (''fa'', ''IR''), (''polish'', ''PL''),
      (''pl'', ''PL''), (''portuguese'', ''PT''), (''pt'', ''PT''),
      (''portuguese (brazil)'', ''BR''), (''punjabi'', ''PK''), (''pa'', ''PK''),
      (''romanian'', ''RO''), (''ro'', ''RO''), (''russian'', ''RU''), (''ru'', ''RU''),
      (''serbian'', ''RS''), (''sr'', ''RS''), (''sinhala'', ''LK''), (''si'', ''LK''),
      (''slovak'', ''SK''), (''sk'', ''SK''), (''slovenian'', ''SI''), (''sl'', ''SI''),
      (''somali'', ''SO''), (''so'', ''SO''), (''spanish'', ''ES''), (''es'', ''ES''),
      (''spanish (latin america)'', ''MX''), (''sundanese'', ''ID''), (''su'', ''ID''),
      (''swahili'', ''KE''), (''sw'', ''KE''), (''swedish'', ''SE''), (''sv'', ''SE''),
      (''tagalog'', ''PH''), (''tl'', ''PH''), (''tajik'', ''TJ''), (''tg'', ''TJ''),
      (''tamil'', ''IN''), (''ta'', ''IN''), (''tatar'', ''RU''), (''tt'', ''RU''),
      (''telugu'', ''IN''), (''te'', ''IN''), (''thai'', ''TH''), (''th'', ''TH''),
      (''turkish'', ''TR''), (''tr'', ''TR''), (''turkmen'', ''TM''), (''tk'', ''TM''),
      (''ukrainian'', ''UA''), (''uk'', ''UA''), (''urdu'', ''PK''), (''ur'', ''PK''),
      (''uyghur'', ''CN''), (''ug'', ''CN''), (''uzbek'', ''UZ''), (''uz'', ''UZ''),
      (''vietnamese'', ''VN''), (''vi'', ''VN''), (''welsh'', ''GB-WLS''),
      (''cy'', ''GB-WLS''), (''xhosa'', ''ZA''), (''xh'', ''ZA''), (''yiddish'', ''IL''),
      (''yi'', ''IL''), (''yoruba'', ''NG''), (''yo'', ''NG''), (''zulu'', ''ZA''),
      (''zu'', ''ZA'')]"

text \<open>
  A flag is a string of code points outside the alphabet of this development; it is kept as
  the list of its code points.  \<open>countryCodeToFlag\<close> adds 127397 to the code of each letter.
\<close>

definition countryCodeToFlag :: "string \<Rightarrow> int list" where
  "countryCodeToFlag code = map (\<lambda>c. 127397 + of_char c) (toUpperCase code)"

definition white_flag :: "int list" where
  "white_flag = [0x1F3F3, 0xFE0F]"

definition globe :: "int list" where
  "globe = [0x1F310]"

text \<open>
  \<open>getLanguageFlag\<close>.  The exact match reads \<open>languageToCountry[normalized]\<close>: an own
  property gives a country code; a member name of \<open>Object.prototype\<close> gives that member,
  which is true and is passed to \<open>countryCodeToFlag\<close>, where \<open>code.toUpperCase()\<close> raises a
  \<open>TypeError\<close>, the member having no such method.  Otherwise the entries are tried in order.
\<close>

definition getLanguageFlag :: "string \<Rightarrow> js_error + int list" where
  "getLanguageFlag language =
     (if language = [] then Inr white_flag
      else (let normalized = trim (toLowerCase language)
            in case map_of languageToCountry normalized of
                 Some country \<Rightarrow> Inr (countryCodeToFlag country)
               | None \<Rightarrow>
                   if normalized \<in> set Object_prototype_names then Inl TypeError
                   else (case find (\<lambda>(key, country).
                                      prefix key normalized \<or>
                                      prefix (trim (hd (split_on CHR ''('' normalized))) key)
                                languageToCountry of
                           Some (key, country) \<Rightarrow> Inr (countryCodeToFlag country)
                         | None \<Rightarrow> Inr globe)))"

text \<open>
  \<open>normalizeLanguage\<close>.  \<open>strip_markers\<close> is
  \<open>.replace(/\s*(sdh|cc|forced|commentary|descriptive|hearing impaired)\s*/gi, '')\<close>: at
  each position, after the white space there, one of the words, and the white space after
  it, are removed.
\<close>

definition marker_words :: "string list" where
  "marker_words = [''sdh'', ''cc'', ''forced'', ''commentary'', ''descriptive'', ''hearing impaired'']"

definition marker_at :: "string \<Rightarrow> string option" where
  "marker_at s = find (\<lambda>m. prefix m (toLowerCase (dropWhile is_space s))) marker_words"

lemma marker_at_shorter:
  assumes "marker_at (c # cs) = Some m"
  shows "length (dropWhile is_space (drop (length m) (dropWhile is_space (c # cs)))) < Suc (length cs)"
proof -
  let ?w = "dropWhile is_space (c # cs)"
  from assms have "m \<in> set marker_words" and p: "prefix m (toLowerCase ?w)"
    by (auto simp: marker_at_def find_Some_iff)
  then have "m \<noteq> []" by (auto simp: marker_words_def)
  moreover from p have "length m \<le> length ?w" by (metis prefix_length_le length_toLowerCase)
  moreover have "length ?w \<le> Suc (length cs)" by (metis length_dropWhile_le length_Cons)
  moreover have "length (dropWhile is_space (drop (length m) ?w)) \<le> length ?w - length m"
    by (metis length_dropWhile_le length_drop)
  ultimately show ?thesis by (cases m) auto
qed

function strip_markers :: "string \<Rightarrow> string" where
  "strip_markers [] = []"
| "strip_markers (c # cs) =
     (case marker_at (c # cs) of
        Some m \<Rightarrow> strip_markers (dropWhile is_space (drop (length m) (dropWhile is_space (c # cs))))
      | None \<Rightarrow> c # strip_markers cs)"
  by pat_completeness auto
termination
  by (relation "measure length") (auto dest: marker_at_shorter)

definition regionalMap :: "(string \<times> string) list" where
  "regionalMap =
     [(''spanish (latin america)'', ''spanish (latin america)''),
      (''portuguese (brazil)'', ''portuguese (brazil)'')]"

definition normalizeLanguage :: "string \<Rightarrow> string" where
  "normalizeLanguage language =
     (if language = [] then []
      else (let base = trim (strip_markers (hd (split_on CHR ''('' (toLowerCase language))))
            in if str_includes base ''chinese'' then ''chinese''
               else if str_includes base ''cantonese'' then ''cantonese''
               else (case find (\<lambda>(key, v).
                                  str_includes (toLowerCase language) (hd (split_on CHR ''('' key)) \<and>
                                  str_includes (toLowerCase language)
                                    (case tl (split_on CHR ''('' key) of
                                       [] \<Rightarrow> []
                                     | p # ps \<Rightarrow> replace_first '')'' [] p))
                            regionalMap of
                       Some (key, v) \<Rightarrow> v
                     | None \<Rightarrow> base)))"

record language_flag =
  language :: string
  flag :: "int list"

text \<open>
  \<open>getUniqueLanguageFlags\<close>: the loop over the languages, with the set \<open>seen\<close> and the array
  \<open>result\<close>.  An error of \<open>getLanguageFlag\<close> ends the call.
\<close>

fun unique_loop :: "string list \<Rightarrow> language_flag list \<Rightarrow> string list \<Rightarrow> js_error + language_flag list" where
  "unique_loop seen result [] = Inr result"
| "unique_loop seen result (lang # langs) =
     (let normalized = normalizeLanguage lang
      in if normalized \<noteq> [] \<and> normalized \<notin> set seen
         then (case getLanguageFlag normalized of
                 Inl e \<Rightarrow> Inl e
               | Inr f \<Rightarrow>
                   unique_loop (normalized # seen) (result @ [\<lparr>language = normalized, flag = f\<rparr>]) langs)
         else unique_loop seen result langs)"

definition getUniqueLanguageFlags :: "string list \<Rightarrow> js_error + language_flag list" where
  "getUniqueLanguageFlags languages = unique_loop [] [] languages"


section \<open>Properties of the language flags\<close>

definition first_seen :: "string list \<Rightarrow> string list" where
  "first_seen xs = foldl add_new [] xs"

definition flag_of :: "string \<Rightarrow> int list" where
  "flag_of n = (case getLanguageFlag n of Inr f \<Rightarrow> f | Inl e \<Rightarrow> [])"

definition flag_found :: "string \<Rightarrow> bool" where
  "flag_found n =
     (n = [] \<or> map_of languageToCountry (trim (toLowerCase n)) \<noteq> None \<or>
      trim (toLowerCase n) \<notin> set Object_prototype_names)"

lemma getLanguageFlag_found: "flag_found n \<Longrightarrow> getLanguageFlag n = Inr (flag_of n)"
  by (auto simp: flag_found_def flag_of_def getLanguageFlag_def Let_def split: option.splits)

lemma add_new_old: "x \<in> set xs \<Longrightarrow> add_new xs x = xs"
  by (simp add: add_new_def)

lemma add_new_fresh: "x \<notin> set xs \<Longrightarrow> add_new xs x = xs @ [x]"
  by (simp add: add_new_def)

lemma foldl_add_new_extends: "\<exists>ws. foldl add_new zs ys = zs @ ws"
proof (induction ys arbitrary: zs)
  case Nil
  show ?case by simp
next
  case (Cons y ys)
  from Cons.IH[of "add_new zs y"] obtain ws where "foldl add_new (add_new zs y) ys = add_new zs y @ ws"
    by blast
  then show ?case by (cases "y \<in> set zs") (auto simp: add_new_old add_new_fresh)
qed

lemma foldl_add_new_prefix: "take (length zs) (foldl add_new zs ys) = zs"
  using foldl_add_new_extends[of zs ys] by auto

lemma unique_loop_dedups:
  assumes "\<forall>l \<in> set langs. flag_found (normalizeLanguage l)" and "distinct seen"
  shows "unique_loop seen result langs =
           Inr (result @ map (\<lambda>n. \<lparr>language = n, flag = flag_of n\<rparr>)
                  (drop (length seen)
                     (foldl add_new (rev seen) (filter (\<lambda>n. n \<noteq> []) (map normalizeLanguage langs)))))"
  using assms
proof (induction langs arbitrary: seen result)
  case Nil
  show ?case by simp
next
  case (Cons l langs)
  let ?n = "normalizeLanguage l"
  from Cons.prems have f: "flag_found ?n" and r: "\<forall>l \<in> set langs. flag_found (normalizeLanguage l)"
    by simp_all
  show ?case
  proof (cases "?n \<noteq> [] \<and> ?n \<notin> set seen")
    case True
    then have d: "distinct (?n # seen)" using Cons.prems(2) by simp
    have pre: "\<And>ys. take (Suc (length seen)) (foldl add_new (rev seen @ [?n]) ys) = rev seen @ [?n]"
      using foldl_add_new_prefix[of "rev seen @ [?n]"] by simp
    let ?ys = "filter (\<lambda>n. n \<noteq> []) (map normalizeLanguage langs)"
    let ?F = "foldl add_new (rev seen @ [?n]) ?ys"
    have split: "drop (length seen) ?F = ?n # drop (Suc (length seen)) ?F"
    proof -
      have "?F = take (Suc (length seen)) ?F @ drop (Suc (length seen)) ?F" by simp
      then have "?F = rev seen @ [?n] @ drop (Suc (length seen)) ?F" using pre[of ?ys] by simp
      then have "drop (length seen) ?F = drop (length seen) (rev seen @ [?n] @ drop (Suc (length seen)) ?F)"
        by simp
      then show ?thesis by simp
    qed
    have step: "foldl add_new (rev seen) (filter (\<lambda>n. n \<noteq> []) (map normalizeLanguage (l # langs))) = ?F"
      using True by (simp add: add_new_fresh)
    have "unique_loop seen result (l # langs) =
            unique_loop (?n # seen) (result @ [\<lparr>language = ?n, flag = flag_of ?n\<rparr>]) langs"
      using True getLanguageFlag_found[OF f] by (simp add: Let_def)
    also have "\<dots> = Inr ((result @ [\<lparr>language = ?n, flag = flag_of ?n\<rparr>]) @
                       map (\<lambda>n. \<lparr>language = n, flag = flag_of n\<rparr>) (drop (Suc (length seen)) ?F))"
      using Cons.IH[OF r d, of "result @ [\<lparr>language = ?n, flag = flag_of ?n\<rparr>]"] by simp
    finally show ?thesis unfolding step split by simp
  next
    case False
    then have same: "foldl add_new (rev seen) (filter (\<lambda>n. n \<noteq> []) (map normalizeLanguage (l # langs))) =
                 foldl add_new (rev seen) (filter (\<lambda>n. n \<noteq> []) (map normalizeLanguage langs))"
      by (auto simp: add_new_old)
    have "unique_loop seen result (l # langs) = unique_loop seen result langs"
      using False by (auto simp: Let_def)
    with Cons.IH[OF r Cons.prems(2), of result] show ?thesis unfolding same by simp
  qed
qed

lemma getUniqueLanguageFlags_dedups:
  assumes "\<forall>l \<in> set langs. flag_found (normalizeLanguage l)"
  shows "getUniqueLanguageFlags langs =
           Inr (map (\<lambda>n. \<lparr>language = n, flag = flag_of n\<rparr>)
                  (first_seen (filter (\<lambda>n. n \<noteq> []) (map normalizeLanguage langs))))"
  using unique_loop_dedups[OF assms, of "[]" "[]"]
  by (simp add: getUniqueLanguageFlags_def first_seen_def)

lemma getUniqueLanguageFlags_example:
  "getUniqueLanguageFlags [''English'', ''English (SDH)'', ''Japanese''] =
     Inr [\<lparr>language = ''english'', flag = [0x1F1FA, 0x1F1F8]\<rparr>,
          \<lparr>language = ''japanese'', flag = [0x1F1EF, 0x1F1F5]\<rparr>]"
  by code_simp

text \<open>
  C9 at the list \<open>["constructor"]\<close>.  The canonical language is \<open>constructor\<close>; the read
  \<open>languageToCountry["constructor"]\<close> finds the inherited \<open>Object.prototype.constructor\<close>,
  which is true, and \<open>countryCodeToFlag\<close> calls \<open>toUpperCase\<close> on it: the call raises a
  \<open>TypeError\<close> and returns no list.
\<close>

theorem getUniqueLanguageFlags_inherited_name:
  "normalizeLanguage ''constructor'' = ''constructor'' \<and>
   getUniqueLanguageFlags [''constructor''] = Inl TypeError"
  by code_simp


end
